theory Spec2Isabelle
  imports Complex_Main "HOL-Library.Multiset"
begin

section \<open>Common data: errors, vectors, Python list operations\<close>

text \<open>
  The retrieval core of the repository lives in \<^verbatim>\<open>backend/retrieval/embeddings.py\<close> and
  \<^verbatim>\<open>backend/retrieval/index.py\<close>. Python floats are modelled as exact reals, lists as HOL
  lists, and every exception as a value of type \<open>error\<close>:
  \<^item> \<open>InvalidConfig\<close>: the \<^verbatim>\<open>ValueError\<close>s raised for bad construction or training
    parameters (\<^verbatim>\<open>"dimension must be positive"\<close>, \<^verbatim>\<open>"invalid ngram_range"\<close>,
    \<^verbatim>\<open>"n_lists must be positive"\<close>, \<^verbatim>\<open>"Not enough data to initialise centroids"\<close>);
  \<^item> \<open>DimensionMismatch\<close>: the \<^verbatim>\<open>ValueError\<close>s \<^verbatim>\<open>"vector dimension mismatch"\<close>,
    \<^verbatim>\<open>"query dimension mismatch"\<close> and \<^verbatim>\<open>"dimension mismatch"\<close>;
  \<^item> \<open>NotTrained\<close>: the \<^verbatim>\<open>RuntimeError\<close>s \<^verbatim>\<open>"Index has not been trained"\<close> and
    \<^verbatim>\<open>"Index must be fit before adding items"\<close>;
  \<^item> \<open>ZeroDivisionError\<close> and \<open>IndexError\<close>: the exceptions Python itself raises on a
    division by zero and on an index out of range.
\<close>

datatype error = InvalidConfig | DimensionMismatch | NotTrained | ZeroDivisionError | IndexError

type_synonym Vector = "real list"

type_synonym Metadata = "(string \<times> string) list"

text \<open>A list comprehension whose body may raise: the first exception ends it.\<close>

fun traverse :: "('a \<Rightarrow> error + 'b) \<Rightarrow> 'a list \<Rightarrow> error + 'b list" where
  "traverse f [] = Inr []"
| "traverse f (x # xs) =
     (case f x of
        Inl e \<Rightarrow> Inl e
      | Inr y \<Rightarrow> (case traverse f xs of Inl e \<Rightarrow> Inl e | Inr ys \<Rightarrow> Inr (y # ys)))"

text \<open>Python's slice \<^verbatim>\<open>xs[i:j]\<close>: a negative bound counts from the end, and both bounds
  are clamped to the list.\<close>

definition py_clamp :: "int \<Rightarrow> nat \<Rightarrow> nat" where
  "py_clamp i n = (if i < 0 then nat (max (i + int n) 0) else min (nat i) n)"

definition py_slice :: "int \<Rightarrow> int \<Rightarrow> 'a list \<Rightarrow> 'a list" where
  "py_slice i j xs =
     (let n = length xs; a = py_clamp i n; b = py_clamp j n in take (b - a) (drop a xs))"

text \<open>\<^verbatim>\<open>xs[i]\<close> for an index that is never negative.\<close>

definition nth_checked :: "'a list \<Rightarrow> nat \<Rightarrow> error + 'a" where
  "nth_checked xs i = (if i < length xs then Inr (xs ! i) else Inl IndexError)"

text \<open>\<^verbatim>\<open>xss[i].append(x)\<close>.\<close>

definition append_at :: "'a list list \<Rightarrow> nat \<Rightarrow> 'a \<Rightarrow> error + 'a list list" where
  "append_at xss i x =
     (if i < length xss then Inr (xss[i := xss ! i @ [x]]) else Inl IndexError)"

text \<open>\<^verbatim>\<open>xs[i] += x\<close> with Python's indexing: a negative index counts from the end.\<close>

definition py_index_add :: "Vector \<Rightarrow> int \<Rightarrow> real \<Rightarrow> error + Vector" where
  "py_index_add v i x =
     (if 0 \<le> i \<and> i < int (length v) then Inr (v[nat i := v ! nat i + x])
      else if i < 0 \<and> - int (length v) \<le> i
      then Inr (v[nat (int (length v) + i) := v ! nat (int (length v) + i) + x])
      else Inl IndexError)"

definition truediv :: "real \<Rightarrow> real \<Rightarrow> error + real" where
  "truediv a b = (if b = 0 then Inl ZeroDivisionError else Inr (a / b))"

definition py_mod :: "int \<Rightarrow> int \<Rightarrow> error + int" where
  "py_mod a b = (if b = 0 then Inl ZeroDivisionError else Inr (a mod b))"

text \<open>\<^verbatim>\<open>list.sort(key=..., reverse=True)\<close> and \<^verbatim>\<open>sorted(..., key=..., reverse=True)\<close>:
  a stable sort, descending in the key (elements with equal keys keep their order).\<close>

definition sort_desc :: "('a \<Rightarrow> real) \<Rightarrow> 'a list \<Rightarrow> 'a list" where
  "sort_desc key xs = sort_key (\<lambda>x. - key x) xs"

section \<open>embeddings.py\<close>

definition zero_vector :: "int \<Rightarrow> Vector" where
  "zero_vector dimension = replicate (nat dimension) 0"

definition l2_norm :: "Vector \<Rightarrow> real" where
  "l2_norm v = sqrt (sum_list (map (\<lambda>value. value * value) v))"

definition normalise :: "Vector \<Rightarrow> error + Vector" where
  "normalise v =
     (let norm = l2_norm v
      in if norm = 0 then Inr v else traverse (\<lambda>value. truediv value norm) v)"

definition cosine_similarity :: "Vector \<Rightarrow> Vector \<Rightarrow> error + real" where
  "cosine_similarity vec_a vec_b =
     (if length vec_a \<noteq> length vec_b then Inl DimensionMismatch
      else let norm_a = l2_norm vec_a; norm_b = l2_norm vec_b
           in if norm_a = 0 \<or> norm_b = 0 then Inr 0
              else truediv (sum_list (map (\<lambda>(a, b). a * b) (zip vec_a vec_b)))
                     (norm_a * norm_b))"

record LocalEmbeddingModel =
  em_dimension :: int
  ngram_range :: "int \<times> int"

definition LocalEmbeddingModel_init :: "int \<Rightarrow> int \<times> int \<Rightarrow> error + LocalEmbeddingModel" where
  "LocalEmbeddingModel_init dimension rng =
     (if dimension \<le> 0 then Inl InvalidConfig
      else if fst rng \<le> 0 \<or> snd rng < fst rng then Inl InvalidConfig
      else Inr \<lparr>em_dimension = dimension, ngram_range = rng\<rparr>)"

text \<open>A \<^verbatim>\<open>Counter\<close> is a dictionary in insertion order: \<^verbatim>\<open>grams[g] += 1\<close> bumps the
  entry of \<open>g\<close> where it stands, or appends a new entry with count 1.\<close>

fun counter_incr :: "'a \<Rightarrow> ('a \<times> nat) list \<Rightarrow> ('a \<times> nat) list" where
  "counter_incr g [] = [(g, 1)]"
| "counter_incr g ((h, c) # rest) =
     (if g = h then (h, c + 1) # rest else (h, c) # counter_incr g rest)"

text \<open>\<^verbatim>\<open>str.lower\<close> is a builtin, taken as the parameter \<open>lower\<close>.\<close>

definition generate_ngrams ::
  "(string \<Rightarrow> string) \<Rightarrow> LocalEmbeddingModel \<Rightarrow> string \<Rightarrow> (string \<times> nat) list" where
  "generate_ngrams lower m text0 =
     (let text = lower text0; start = fst (ngram_range m); stop = snd (ngram_range m)
      in foldl (\<lambda>grams n.
                  foldl (\<lambda>grams index.
                           counter_incr (py_slice (int index) (int index + n) text) grams)
                        grams [0 ..< nat (int (length text) - n + 1)])
               [] [start .. stop])"

text \<open>The loop of \<^verbatim>\<open>embed\<close> over \<^verbatim>\<open>grams.items()\<close>; the builtin \<^verbatim>\<open>hash\<close> is the
  parameter \<open>hash\<close>.\<close>

fun accumulate :: "(string \<Rightarrow> int) \<Rightarrow> int \<Rightarrow> (string \<times> nat) list \<Rightarrow> Vector \<Rightarrow> error + Vector" where
  "accumulate hash dimension [] v = Inr v"
| "accumulate hash dimension ((gram, cnt) # rest) v =
     (case py_mod (hash gram) dimension of
        Inl e \<Rightarrow> Inl e
      | Inr bucket \<Rightarrow>
          (case py_index_add v bucket (real cnt) of
             Inl e \<Rightarrow> Inl e
           | Inr v' \<Rightarrow> accumulate hash dimension rest v'))"

definition features ::
  "(string \<Rightarrow> int) \<Rightarrow> (string \<Rightarrow> string) \<Rightarrow> LocalEmbeddingModel \<Rightarrow> string \<Rightarrow> error + Vector" where
  "features hash lower m text =
     accumulate hash (em_dimension m) (generate_ngrams lower m text)
       (zero_vector (em_dimension m))"

definition embed ::
  "(string \<Rightarrow> int) \<Rightarrow> (string \<Rightarrow> string) \<Rightarrow> LocalEmbeddingModel \<Rightarrow> string \<Rightarrow> error + Vector" where
  "embed hash lower m text =
     (case features hash lower m text of Inl e \<Rightarrow> Inl e | Inr v \<Rightarrow> normalise v)"

section \<open>index.py\<close>

text \<open>An \<^verbatim>\<open>IndexedVector\<close> object; \<open>obj_id\<close> is the object's identity, which
  \<^verbatim>\<open>HNSWIndex.search\<close> reads with \<^verbatim>\<open>id(item)\<close>.\<close>

record IndexedVector =
  obj_id :: nat
  vector :: Vector
  metadata :: Metadata

text \<open>The three methods of \<^verbatim>\<open>random.Random\<close> that the indexes call, over a generator state
  \<open>'r\<close>. \<open>sample_op r n k\<close> gives the positions that \<^verbatim>\<open>sample(population, k)\<close> picks in a
  population of \<open>n\<close>, \<open>shuffle_op r n\<close> the order into which \<^verbatim>\<open>shuffle\<close> brings
  \<^verbatim>\<open>list(range(n))\<close>, \<open>uniform_op r a b\<close> the value of \<^verbatim>\<open>uniform(a, b)\<close>; each returns the
  next state.\<close>

record 'r random_ops =
  seed_op :: "int option \<Rightarrow> 'r"
  sample_op :: "'r \<Rightarrow> nat \<Rightarrow> nat \<Rightarrow> nat list \<times> 'r"
  shuffle_op :: "'r \<Rightarrow> nat \<Rightarrow> nat list \<times> 'r"
  uniform_op :: "'r \<Rightarrow> real \<Rightarrow> real \<Rightarrow> real \<times> 'r"

text \<open>What the library promises of \<^verbatim>\<open>sample\<close>: \<open>k\<close> distinct positions of the population.\<close>

definition valid_sample :: "'r random_ops \<Rightarrow> bool" where
  "valid_sample R \<longleftrightarrow>
     (\<forall>r n k. k \<le> n \<longrightarrow>
        length (fst (sample_op R r n k)) = k \<and> distinct (fst (sample_op R r n k)) \<and>
        (\<forall>p \<in> set (fst (sample_op R r n k)). p < n))"

record VectorIndex =
  dimension :: int

subsection \<open>HNSWIndex\<close>

record 'r HNSWIndex = VectorIndex +
  ef :: int
  hnsw_rng :: 'r
  items :: "IndexedVector list"

definition HNSWIndex_init ::
  "'r random_ops \<Rightarrow> int \<Rightarrow> int \<Rightarrow> int option \<Rightarrow> error + 'r HNSWIndex" where
  "HNSWIndex_init R dimension0 ef0 seed =
     Inr \<lparr>dimension = dimension0, ef = max ef0 1, hnsw_rng = seed_op R seed, items = []\<rparr>"

text \<open>\<^verbatim>\<open>add\<close> returns the exception, if any, and the index as the call leaves it: the items
  before an offending one have been appended.\<close>

fun HNSW_add :: "'r HNSWIndex \<Rightarrow> IndexedVector list \<Rightarrow> error option \<times> 'r HNSWIndex" where
  "HNSW_add s [] = (None, s)"
| "HNSW_add s (item # rest) =
     (if int (length (vector item)) \<noteq> dimension s then (Some DimensionMismatch, s)
      else HNSW_add (s\<lparr>items := items s @ [item]\<rparr>) rest)"

text \<open>The top-up loop of \<^verbatim>\<open>search\<close>: an item whose identity is not in \<open>seen\<close> is appended,
  and the loop breaks once the candidates number at least \<open>ef\<close>.\<close>

fun top_up :: "int \<Rightarrow> nat set \<Rightarrow> IndexedVector list \<Rightarrow> IndexedVector list \<Rightarrow> IndexedVector list" where
  "top_up ef0 seen [] candidates = candidates"
| "top_up ef0 seen (item # rest) candidates =
     (if obj_id item \<notin> seen
      then (let candidates' = candidates @ [item]
            in if int (length candidates') \<ge> ef0 then candidates'
               else top_up ef0 seen rest candidates')
      else top_up ef0 seen rest candidates)"

text \<open>The candidates that \<^verbatim>\<open>search\<close> scores on a non-empty store, with the generator's next
  state. \<open>ef\<close> is at least 1 after construction, so the sample size is between 1 and the
  size of the store.\<close>

definition HNSW_candidates :: "'r random_ops \<Rightarrow> 'r HNSWIndex \<Rightarrow> IndexedVector list \<times> 'r" where
  "HNSW_candidates R s =
     (let n = length (items s);
          (positions, r') = sample_op R (hnsw_rng s) n (nat (min (int n) (ef s)));
          candidates = map (\<lambda>p. items s ! p) positions
      in (if length candidates < n
          then top_up (ef s) (obj_id ` set candidates) (items s) candidates
          else candidates, r'))"

definition score_all :: "Vector \<Rightarrow> IndexedVector list \<Rightarrow> error + (real \<times> Metadata) list" where
  "score_all query candidates =
     traverse (\<lambda>item. case cosine_similarity query (vector item) of
                        Inl e \<Rightarrow> Inl e
                      | Inr score \<Rightarrow> Inr (score, metadata item))
              candidates"

definition HNSW_search ::
  "'r random_ops \<Rightarrow> 'r HNSWIndex \<Rightarrow> Vector \<Rightarrow> int
     \<Rightarrow> (error + (real \<times> Metadata) list) \<times> 'r HNSWIndex" where
  "HNSW_search R s query k =
     (if int (length query) \<noteq> dimension s then (Inl DimensionMismatch, s)
      else if items s = [] then (Inr [], s)
      else let (candidates, r') = HNSW_candidates R s; s' = s\<lparr>hnsw_rng := r'\<rparr>
           in case score_all query candidates of
                Inl e \<Rightarrow> (Inl e, s')
              | Inr scores \<Rightarrow> (Inr (py_slice 0 k (sort_desc fst scores)), s'))"

subsection \<open>IVFIndex\<close>

record 'r IVFIndex = VectorIndex +
  n_lists :: int
  iterations :: int
  ivf_rng :: 'r
  centroids :: "Vector list"
  ivf_lists :: "IndexedVector list list"

definition IVFIndex_init ::
  "'r random_ops \<Rightarrow> int \<Rightarrow> int \<Rightarrow> int \<Rightarrow> int option \<Rightarrow> error + 'r IVFIndex" where
  "IVFIndex_init R dimension0 n_lists0 iterations0 seed =
     (if n_lists0 \<le> 0 then Inl InvalidConfig
      else Inr \<lparr>dimension = dimension0, n_lists = n_lists0, iterations = max iterations0 1,
                ivf_rng = seed_op R seed, centroids = [], ivf_lists = []\<rparr>)"

text \<open>\<^verbatim>\<open>max(range(len(scores)), key=...)\<close>: the first index of a largest score.\<close>

definition argmax_first :: "real list \<Rightarrow> nat" where
  "argmax_first scores =
     foldl (\<lambda>best idx. if scores ! idx > scores ! best then idx else best) 0
       [1 ..< length scores]"

definition assign :: "Vector list \<Rightarrow> Vector \<Rightarrow> error + nat" where
  "assign cs v =
     (if cs = [] then Inl NotTrained
      else case traverse (cosine_similarity v) cs of
             Inl e \<Rightarrow> Inl e
           | Inr scores \<Rightarrow> Inr (argmax_first scores))"

fun noise_vector :: "'r random_ops \<Rightarrow> 'r \<Rightarrow> nat \<Rightarrow> Vector \<times> 'r" where
  "noise_vector R r 0 = ([], r)"
| "noise_vector R r (Suc n) =
     (let (x, r1) = uniform_op R r (- 1) 1; (xs, r2) = noise_vector R r1 n in (x # xs, r2))"

fun pad_noise :: "'r random_ops \<Rightarrow> 'r \<Rightarrow> nat \<Rightarrow> nat \<Rightarrow> Vector list \<times> 'r" where
  "pad_noise R r 0 d = ([], r)"
| "pad_noise R r (Suc m) d =
     (let (v, r1) = noise_vector R r d; (vs, r2) = pad_noise R r1 m d in (v # vs, r2))"

definition initialise_centroids ::
  "'r random_ops \<Rightarrow> 'r IVFIndex \<Rightarrow> Vector list \<Rightarrow> error + 'r IVFIndex" where
  "initialise_centroids R s data =
     (let (indices, r1) = shuffle_op R (ivf_rng s) (length data);
          selected = py_slice 0 (n_lists s) indices
      in case traverse (nth_checked data) selected of
           Inl e \<Rightarrow> Inl e
         | Inr cs \<Rightarrow>
             (let (extra, r2) =
                    (if int (length cs) < n_lists s
                     then pad_noise R r1 (nat (n_lists s - int (length cs))) (nat (dimension s))
                     else ([], r1));
                  cs' = cs @ extra
              in Inr (s\<lparr>ivf_rng := r2, centroids := cs',
                        ivf_lists := replicate (length cs') []\<rparr>)))"

text \<open>One training round, first half: every vector goes to the list of its centroid.\<close>

fun assign_all :: "Vector list \<Rightarrow> Vector list \<Rightarrow> Vector list list \<Rightarrow> error + Vector list list" where
  "assign_all cs [] assignments = Inr assignments"
| "assign_all cs (v # vs) assignments =
     (case assign cs v of
        Inl e \<Rightarrow> Inl e
      | Inr i \<Rightarrow>
          (case append_at assignments i v of
             Inl e \<Rightarrow> Inl e
           | Inr assignments' \<Rightarrow> assign_all cs vs assignments'))"

text \<open>\<^verbatim>\<open>for dim, value in enumerate(vector): centroid[dim] += value\<close>.\<close>

fun add_into :: "Vector \<Rightarrow> Vector \<Rightarrow> error + Vector" where
  "add_into centroid [] = Inr centroid"
| "add_into [] (value # rest) = Inl IndexError"
| "add_into (c # centroid) (value # rest) =
     (case add_into centroid rest of Inl e \<Rightarrow> Inl e | Inr cs \<Rightarrow> Inr ((c + value) # cs))"

fun sum_assigned :: "Vector \<Rightarrow> Vector list \<Rightarrow> error + Vector" where
  "sum_assigned centroid [] = Inr centroid"
| "sum_assigned centroid (v # vs) =
     (case add_into centroid v of Inl e \<Rightarrow> Inl e | Inr c \<Rightarrow> sum_assigned c vs)"

definition recompute :: "int \<Rightarrow> Vector list \<Rightarrow> error + Vector" where
  "recompute d assigned =
     (case sum_assigned (zero_vector d) assigned of
        Inl e \<Rightarrow> Inl e
      | Inr centroid \<Rightarrow>
          traverse (\<lambda>value. truediv value (real (length assigned))) centroid)"

text \<open>Second half: \<^verbatim>\<open>for idx, assigned in enumerate(assignments)\<close>, an empty list leaves its
  centroid as it is.\<close>

fun update_centroids :: "int \<Rightarrow> nat \<Rightarrow> Vector list list \<Rightarrow> Vector list \<Rightarrow> error + Vector list" where
  "update_centroids d idx [] cs = Inr cs"
| "update_centroids d idx (assigned # rest) cs =
     (if assigned = [] then update_centroids d (Suc idx) rest cs
      else case recompute d assigned of
             Inl e \<Rightarrow> Inl e
           | Inr centroid \<Rightarrow>
               (if idx < length cs then update_centroids d (Suc idx) rest (cs[idx := centroid])
                else Inl IndexError))"

fun fit_rounds :: "nat \<Rightarrow> int \<Rightarrow> Vector list \<Rightarrow> Vector list \<Rightarrow> error + Vector list" where
  "fit_rounds 0 d data cs = Inr cs"
| "fit_rounds (Suc n) d data cs =
     (case assign_all cs data (replicate (length cs) []) of
        Inl e \<Rightarrow> Inl e
      | Inr assignments \<Rightarrow>
          (case update_centroids d 0 assignments cs of
             Inl e \<Rightarrow> Inl e
           | Inr cs' \<Rightarrow> fit_rounds n d data cs'))"

text \<open>\<^verbatim>\<open>fit\<close> raises its two precondition errors before it touches the index.\<close>

definition fit :: "'r random_ops \<Rightarrow> 'r IVFIndex \<Rightarrow> Vector list \<Rightarrow> error + 'r IVFIndex" where
  "fit R s data =
     (if int (length data) < n_lists s then Inl InvalidConfig
      else if \<exists>v \<in> set data. int (length v) \<noteq> dimension s then Inl DimensionMismatch
      else case initialise_centroids R s data of
             Inl e \<Rightarrow> Inl e
           | Inr s1 \<Rightarrow>
               (case fit_rounds (nat (iterations s)) (dimension s) data (centroids s1) of
                  Inl e \<Rightarrow> Inl e
                | Inr cs \<Rightarrow> Inr (s1\<lparr>centroids := cs, ivf_lists := replicate (length cs) []\<rparr>)))"

fun IVF_add_loop :: "'r IVFIndex \<Rightarrow> IndexedVector list \<Rightarrow> error option \<times> 'r IVFIndex" where
  "IVF_add_loop s [] = (None, s)"
| "IVF_add_loop s (item # rest) =
     (if int (length (vector item)) \<noteq> dimension s then (Some DimensionMismatch, s)
      else case assign (centroids s) (vector item) of
             Inl e \<Rightarrow> (Some e, s)
           | Inr bucket \<Rightarrow>
               (case append_at (ivf_lists s) bucket item of
                  Inl e \<Rightarrow> (Some e, s)
                | Inr ls \<Rightarrow> IVF_add_loop (s\<lparr>ivf_lists := ls\<rparr>) rest))"

definition IVF_add :: "'r IVFIndex \<Rightarrow> IndexedVector list \<Rightarrow> error option \<times> 'r IVFIndex" where
  "IVF_add s its = (if centroids s = [] then (Some NotTrained, s) else IVF_add_loop s its)"

text \<open>\<^verbatim>\<open>n_probe or min(2, len(self._centroids))\<close>: \<^verbatim>\<open>None\<close> and 0 are both falsy.\<close>

definition resolve_n_probe :: "int option \<Rightarrow> Vector list \<Rightarrow> int" where
  "resolve_n_probe n_probe cs =
     (case n_probe of
        None \<Rightarrow> min 2 (int (length cs))
      | Some n \<Rightarrow> if n = 0 then min 2 (int (length cs)) else n)"

text \<open>The indices of the lists that \<^verbatim>\<open>search\<close> probes, best centroid first.\<close>

definition ranked_lists :: "Vector list \<Rightarrow> Vector \<Rightarrow> int option \<Rightarrow> error + nat list" where
  "ranked_lists cs query n_probe =
     (case traverse (cosine_similarity query) cs of
        Inl e \<Rightarrow> Inl e
      | Inr scores \<Rightarrow>
          Inr (py_slice 0 (resolve_n_probe n_probe cs)
                 (sort_desc (\<lambda>idx. scores ! idx) [0 ..< length scores])))"

text \<open>\<^verbatim>\<open>search\<close> assigns to no attribute of the index, so it returns its result only.\<close>

definition IVF_search ::
  "'r IVFIndex \<Rightarrow> Vector \<Rightarrow> int \<Rightarrow> int option \<Rightarrow> error + (real \<times> Metadata) list" where
  "IVF_search s query k n_probe =
     (if int (length query) \<noteq> dimension s then Inl DimensionMismatch
      else if centroids s = [] then Inr []
      else case ranked_lists (centroids s) query n_probe of
             Inl e \<Rightarrow> Inl e
           | Inr ranked \<Rightarrow>
               (case traverse (nth_checked (ivf_lists s)) ranked of
                  Inl e \<Rightarrow> Inl e
                | Inr probed \<Rightarrow>
                    (case score_all query (concat probed) of
                       Inl e \<Rightarrow> Inl e
                     | Inr results \<Rightarrow> Inr (py_slice 0 k (sort_desc fst results)))))"

section \<open>A small generator for running the model\<close>

text \<open>\<^verbatim>\<open>random.Random\<close> belongs to Python's library. To run the model on concrete inputs,
  \<open>rot_random\<close> stands in for it: the state is a counter, a sample of \<open>k\<close> out of \<open>n\<close> is
  the first \<open>k\<close> positions of \<open>[0 ..< n]\<close> rotated by the counter, a shuffle is the rotated
  list, and every call advances the counter.\<close>

definition rot_random :: "nat random_ops" where
  "rot_random =
     \<lparr>seed_op = (\<lambda>seed. case seed of None \<Rightarrow> 0 | Some n \<Rightarrow> nat n),
      sample_op = (\<lambda>r n k. (take k (rotate r [0 ..< n]), Suc r)),
      shuffle_op = (\<lambda>r n. (rotate r [0 ..< n], Suc r)),
      uniform_op = (\<lambda>r a b. (a, Suc r))\<rparr>"

section \<open>Reference definitions from the specification\<close>

text \<open>Cosine similarity as the specification words it: the dot product over the product of
  the norms, and 0 when either norm is zero.\<close>

definition cos_sim :: "Vector \<Rightarrow> Vector \<Rightarrow> real" where
  "cos_sim a b =
     (if l2_norm a = 0 \<or> l2_norm b = 0 then 0
      else sum_list (map (\<lambda>(x, y). x * y) (zip a b)) / (l2_norm a * l2_norm b))"

definition scored :: "Vector \<Rightarrow> IndexedVector \<Rightarrow> real \<times> Metadata" where
  "scored query item = (cos_sim query (vector item), metadata item)"

text \<open>The exhaustive scan: score every item in storage order, sort descending by score,
  keep the first \<open>k\<close>.\<close>

definition exact_top_k :: "Vector \<Rightarrow> int \<Rightarrow> IndexedVector list \<Rightarrow> (real \<times> Metadata) list" where
  "exact_top_k query k its = take (nat k) (sort_desc fst (map (scored query) its))"

section \<open>Sequences of calls on a trained index\<close>

datatype ivf_call = Add "IndexedVector list" | Search Vector int "int option"

fun ivf_call_state :: "'r IVFIndex \<Rightarrow> ivf_call \<Rightarrow> 'r IVFIndex" where
  "ivf_call_state s (Add its) = snd (IVF_add s its)"
| "ivf_call_state s (Search query k n_probe) = s"

definition ivf_run :: "'r IVFIndex \<Rightarrow> ivf_call list \<Rightarrow> 'r IVFIndex" where
  "ivf_run s calls = foldl ivf_call_state s calls"

section \<open>The trained state\<close>

text \<open>What holds of a Clustered Inverted Index from a successful \<^verbatim>\<open>fit\<close> on: there are
  centroids, as many lists as centroids, every centroid and every stored vector has the
  configured dimension, and every stored item sits in the list that \<^verbatim>\<open>_assign\<close> gives
  it.\<close>

definition ivf_trained :: "'r IVFIndex \<Rightarrow> bool" where
  "ivf_trained s \<longleftrightarrow>
     centroids s \<noteq> [] \<and> length (ivf_lists s) = length (centroids s) \<and>
     (\<forall>c \<in> set (centroids s). int (length c) = dimension s) \<and>
     (\<forall>i < length (ivf_lists s). \<forall>it \<in> set (ivf_lists s ! i).
        int (length (vector it)) = dimension s \<and> assign (centroids s) (vector it) = Inr i)"

section \<open>Example data\<close>

definition item_a :: IndexedVector where
  "item_a = \<lparr>obj_id = 0, vector = [1, 0], metadata = [(''text'', ''a'')]\<rparr>"

definition item_b :: IndexedVector where
  "item_b = \<lparr>obj_id = 1, vector = [0, 1], metadata = [(''text'', ''b'')]\<rparr>"

definition item_c :: IndexedVector where
  "item_c = \<lparr>obj_id = 2, vector = [- 1, 0], metadata = [(''text'', ''c'')]\<rparr>"

text \<open>A Sampled Flat Index of dimension 2 with \<open>ef = 1\<close> holding three items.\<close>

definition small_ef_index :: "nat HNSWIndex" where
  "small_ef_index =
     \<lparr>dimension = 2, ef = 1, hnsw_rng = 1, items = [item_b, item_c, item_a]\<rparr>"

text \<open>The same three items in an index whose \<open>ef\<close> covers the store, over any generator
  state.\<close>

definition wide_ef_index :: "nat \<Rightarrow> nat HNSWIndex" where
  "wide_ef_index r =
     \<lparr>dimension = 2, ef = 10, hnsw_rng = r, items = [item_b, item_c, item_a]\<rparr>"

text \<open>Two items with the same vector, hence the same score against every query.\<close>

definition item_a2 :: IndexedVector where
  "item_a2 = \<lparr>obj_id = 3, vector = [1, 0], metadata = [(''text'', ''a2'')]\<rparr>"

definition tied_index :: "nat HNSWIndex" where
  "tied_index = \<lparr>dimension = 2, ef = 10, hnsw_rng = 0, items = [item_a, item_a2]\<rparr>"

text \<open>A Clustered Inverted Index as constructed, before any \<^verbatim>\<open>fit\<close>.\<close>

definition fresh_ivf :: "nat IVFIndex" where
  "fresh_ivf =
     \<lparr>dimension = 2, n_lists = 2, iterations = 1, ivf_rng = 0, centroids = [],
      ivf_lists = []\<rparr>"

text \<open>An embedding model of dimension 2 over single characters, and a stand-in for the
  builtin \<^verbatim>\<open>hash\<close>: the length of the string.\<close>

definition unigram_model :: LocalEmbeddingModel where
  "unigram_model = \<lparr>em_dimension = 2, ngram_range = (1, 1)\<rparr>"

definition length_hash :: "string \<Rightarrow> int" where
  "length_hash gram = int (length gram)"

text \<open>The index \<open>fresh_ivf\<close> after \<^verbatim>\<open>fit\<close> on the two unit vectors, and after the three
  items have been added to it.\<close>

definition trained_ivf :: "nat IVFIndex" where
  "trained_ivf =
     \<lparr>dimension = 2, n_lists = 2, iterations = 1, ivf_rng = 1,
      centroids = [[1, 0], [0, 1]], ivf_lists = [[], []]\<rparr>"

definition filled_ivf :: "nat IVFIndex" where
  "filled_ivf = trained_ivf\<lparr>ivf_lists := [[item_a], [item_b, item_c]]\<rparr>"

text \<open>An item whose vector has one component only.\<close>

definition short_item :: IndexedVector where
  "short_item = \<lparr>obj_id = 4, vector = [1], metadata = [(''text'', ''short'')]\<rparr>"

section \<open>Auxiliary facts\<close>

subsection \<open>Python list operations\<close>

lemma py_slice_prefix: "0 \<le> k \<Longrightarrow> py_slice 0 k xs = take (nat k) xs"
  unfolding py_slice_def py_clamp_def Let_def by (simp add: min_def)

lemma traverse_total:
  "(\<And>x. x \<in> set xs \<Longrightarrow> f x = Inr (g x)) \<Longrightarrow> traverse f xs = Inr (map g xs)"
  by (induction xs) simp_all

lemma traverse_length: "traverse f xs = Inr ys \<Longrightarrow> length ys = length xs"
  by (induction xs arbitrary: ys) (auto split: sum.splits)

lemma traverse_rel: "traverse f xs = Inr ys \<Longrightarrow> list_all2 (\<lambda>x y. f x = Inr y) xs ys"
  by (induction xs arbitrary: ys) (auto split: sum.splits)

subsection \<open>Sorting\<close>

lemma map_key_sort_key: "map f (sort_key f xs) = sort (map f xs)"
  by (rule properties_for_sort [symmetric]) (simp_all add: sorted_sort_key)

lemma sort_desc_keys_mset:
  assumes "mset xs = mset ys"
  shows "map key (sort_desc key xs) = map key (sort_desc key ys)"
proof -
  let ?f = "\<lambda>x. - key x"
  have "mset (map ?f xs) = mset (map ?f ys)"
    using assms by (metis mset_map)
  then have "sort (map ?f xs) = sort (map ?f ys)"
    by (metis properties_for_sort sorted_sort mset_sort)
  then have "map ?f (sort_key ?f xs) = map ?f (sort_key ?f ys)"
    by (simp add: map_key_sort_key)
  then have "map uminus (map ?f (sort_key ?f xs)) = map uminus (map ?f (sort_key ?f ys))"
    by simp
  then show ?thesis
    by (simp add: sort_desc_def comp_def)
qed

lemma sort_desc_distinct_mset:
  assumes "mset xs = mset ys" and "distinct (map key xs)"
  shows "sort_desc key xs = sort_desc key ys"
proof -
  have "inj_on (\<lambda>x. - key x) (set xs)"
    using assms(2) by (auto simp: distinct_map inj_on_def)
  then have "sort_key (\<lambda>x. - key x) xs = sort_key (\<lambda>x. - key x) ys"
    using assms(1) by (intro sort_key_inj_key_eq) (simp_all add: sorted_sort_key)
  then show ?thesis
    by (simp add: sort_desc_def)
qed

lemma sort_desc_mset [simp]: "mset (sort_desc key xs) = mset xs"
  by (simp add: sort_desc_def)

lemma sort_desc_descending: "sorted (rev (map key (sort_desc key xs)))"
proof -
  have "sorted (map (\<lambda>x. - key x) (sort_desc key xs))"
    by (simp add: sort_desc_def sorted_sort_key)
  then have "sorted_wrt (\<lambda>x y. key y \<le> key x) (sort_desc key xs)"
    by (simp add: sorted_wrt_map)
  then show ?thesis
    by (simp add: sorted_wrt_rev sorted_wrt_map flip: rev_map)
qed

lemma mset_take_subseteq: "mset (take n xs) \<subseteq># mset xs"
  by (metis append_take_drop_id mset_append mset_subset_eq_add_left)

subsection \<open>Cosine similarity\<close>

lemma cosine_similarity_total:
  "length a = length b \<Longrightarrow> cosine_similarity a b = Inr (cos_sim a b)"
  by (simp add: cosine_similarity_def cos_sim_def truediv_def Let_def)

lemma cosine_similarity_mismatch:
  "length a \<noteq> length b \<Longrightarrow> cosine_similarity a b = Inl DimensionMismatch"
  by (simp add: cosine_similarity_def)

lemma score_all_total:
  "(\<And>item. item \<in> set its \<Longrightarrow> length (vector item) = length query) \<Longrightarrow>
     score_all query its = Inr (map (scored query) its)"
  unfolding score_all_def
  by (rule traverse_total) (simp add: cosine_similarity_total scored_def)

subsection \<open>Samples\<close>

lemma full_sample_mset:
  assumes "length ps = n" and "distinct ps" and "\<forall>p \<in> set ps. p < n"
  shows "mset ps = mset [0 ..< n]"
proof -
  have "set ps \<subseteq> {0 ..< n}"
    using assms(3) by auto
  moreover have "card (set ps) = card {0 ..< n}"
    using assms(1,2) by (simp add: distinct_card)
  ultimately have "set ps = {0 ..< n}"
    by (simp add: card_subset_eq)
  then have "set ps = set [0 ..< n]"
    by simp
  then show ?thesis
    using assms(2) by (metis distinct_upt set_eq_iff_mset_eq_distinct)
qed

lemma map_nth_mset:
  assumes "mset ps = mset [0 ..< length xs]"
  shows "mset (map (\<lambda>p. xs ! p) ps) = mset xs"
proof -
  have "mset (map (\<lambda>p. xs ! p) ps) = mset (map (\<lambda>p. xs ! p) [0 ..< length xs])"
    using assms by (metis mset_map)
  then show ?thesis
    by (simp add: map_nth)
qed

subsection \<open>HNSWIndex\<close>

lemma HNSW_add_valid:
  "\<forall>it \<in> set its. int (length (vector it)) = dimension s \<Longrightarrow>
     HNSW_add s its = (None, s\<lparr>items := items s @ its\<rparr>)"
  by (induction its arbitrary: s) simp_all

lemma HNSW_add_offending:
  "\<forall>it \<in> set pre. int (length (vector it)) = dimension s \<Longrightarrow>
   int (length (vector bad)) \<noteq> dimension s \<Longrightarrow>
     HNSW_add s (pre @ bad # post) = (Some DimensionMismatch, s\<lparr>items := items s @ pre\<rparr>)"
  by (induction pre arbitrary: s) simp_all

lemma HNSW_add_None:
  "HNSW_add s its = (None, s') \<Longrightarrow>
     s' = s\<lparr>items := items s @ its\<rparr> \<and> (\<forall>it \<in> set its. int (length (vector it)) = dimension s)"
proof (induction its arbitrary: s)
  case Nil
  then show ?case by simp
next
  case (Cons it its)
  from Cons.prems have ok: "int (length (vector it)) = dimension s"
    by (auto split: if_splits)
  with Cons.prems have "HNSW_add (s\<lparr>items := items s @ [it]\<rparr>) its = (None, s')"
    by simp
  from Cons.IH [OF this] ok show ?case
    by simp
qed

lemma valid_sampleD:
  assumes "valid_sample R" and "k \<le> n"
  shows "length (fst (sample_op R r n k)) = k" and "distinct (fst (sample_op R r n k))"
    and "\<forall>p \<in> set (fst (sample_op R r n k)). p < n"
  using assms unfolding valid_sample_def by blast+

lemma HNSW_candidates_full:
  assumes "valid_sample R" and "int (length (items s)) \<le> ef s"
  shows "mset (fst (HNSW_candidates R s)) = mset (items s)"
proof -
  let ?n = "length (items s)"
  let ?ps = "fst (sample_op R (hnsw_rng s) ?n ?n)"
  have k: "nat (min (int ?n) (ef s)) = ?n"
    using assms(2) by simp
  have len: "length ?ps = ?n"
    by (rule valid_sampleD(1) [OF assms(1) order_refl])
  have "distinct ?ps"
    by (rule valid_sampleD(2) [OF assms(1) order_refl])
  moreover have "\<forall>p \<in> set ?ps. p < ?n"
    by (rule valid_sampleD(3) [OF assms(1) order_refl])
  ultimately have "mset ?ps = mset [0 ..< ?n]"
    using len by (intro full_sample_mset)
  then have "mset (map (\<lambda>p. items s ! p) ?ps) = mset (items s)"
    by (rule map_nth_mset)
  moreover have "HNSW_candidates R s =
      (map (\<lambda>p. items s ! p) ?ps, snd (sample_op R (hnsw_rng s) ?n ?n))"
    unfolding HNSW_candidates_def Let_def k split_def using len by simp
  ultimately show ?thesis
    by simp
qed

lemma HNSW_candidates_set:
  assumes "valid_sample R" and "int (length (items s)) \<le> ef s"
  shows "set (fst (HNSW_candidates R s)) = set (items s)"
  using HNSW_candidates_full [OF assms] by (rule mset_eq_setD)

lemma hnsw_full_scan:
  assumes R: "valid_sample R"
    and dims: "\<forall>it \<in> set (items s). int (length (vector it)) = dimension s"
    and ef: "int (length (items s)) \<le> ef s"
    and q: "int (length query) = dimension s"
    and k: "0 \<le> k"
  shows "\<exists>res. fst (HNSW_search R s query k) = Inr res \<and>
           map fst res = map fst (exact_top_k query k (items s)) \<and>
           mset res \<subseteq># mset (map (scored query) (items s)) \<and>
           (distinct (map fst (map (scored query) (items s))) \<longrightarrow>
              res = exact_top_k query k (items s))"
proof (cases "items s = []")
  case True
  then show ?thesis
    using q by (simp add: HNSW_search_def exact_top_k_def sort_desc_def)
next
  case False
  let ?cands = "fst (HNSW_candidates R s)"
  let ?all = "map (scored query) (items s)"
  let ?res = "take (nat k) (sort_desc fst (map (scored query) ?cands))"
  have m: "mset ?cands = mset (items s)"
    by (rule HNSW_candidates_full [OF R ef])
  have "\<And>item. item \<in> set ?cands \<Longrightarrow> length (vector item) = length query"
    using dims q HNSW_candidates_set [OF R ef] by auto
  then have sc: "score_all query ?cands = Inr (map (scored query) ?cands)"
    by (rule score_all_total)
  have res: "fst (HNSW_search R s query k) = Inr ?res"
    using False q k sc by (simp add: HNSW_search_def split_def Let_def py_slice_prefix)
  have mm: "mset (map (scored query) ?cands) = mset ?all"
    using m by (metis mset_map)
  have "map fst ?res = take (nat k) (map fst (sort_desc fst (map (scored query) ?cands)))"
    by (simp add: take_map)
  also have "\<dots> = take (nat k) (map fst (sort_desc fst ?all))"
    using sort_desc_keys_mset [OF mm, of fst] by simp
  finally have keys: "map fst ?res = map fst (exact_top_k query k (items s))"
    by (simp add: exact_top_k_def take_map)
  have sub: "mset ?res \<subseteq># mset ?all"
    using mset_take_subseteq [of "nat k" "sort_desc fst (map (scored query) ?cands)"] mm
    by simp
  have eq: "?res = exact_top_k query k (items s)" if "distinct (map fst ?all)"
    using sort_desc_distinct_mset [OF mm [symmetric] that] by (simp add: exact_top_k_def)
  show ?thesis
  proof (intro exI conjI impI)
    show "fst (HNSW_search R s query k) = Inr ?res" by (rule res)
    show "map fst ?res = map fst (exact_top_k query k (items s))" by (rule keys)
    show "mset ?res \<subseteq># mset ?all" by (rule sub)
    show "?res = exact_top_k query k (items s)" if "distinct (map fst ?all)"
      using that by (rule eq)
  qed
qed

lemma HNSW_search_keeps:
  "items (snd (HNSW_search R s query k)) = items s \<and>
   ef (snd (HNSW_search R s query k)) = ef s \<and>
   dimension (snd (HNSW_search R s query k)) = dimension s"
  by (simp add: HNSW_search_def split_def Let_def split: sum.splits)

subsection \<open>Running the examples\<close>

lemma rot_random_valid_sample: "valid_sample rot_random"
  by (auto simp: valid_sample_def rot_random_def dest!: in_set_takeD)

lemma l2_norm_unit [simp]:
  "l2_norm [1, 0] = 1" "l2_norm [0, 1] = 1" "l2_norm [- 1, 0] = 1"
  by (simp_all add: l2_norm_def)

lemma cos_sim_examples [simp]:
  "cos_sim [1, 0] [1, 0] = 1" "cos_sim [1, 0] [0, 1] = 0" "cos_sim [1, 0] [- 1, 0] = - 1"
  by (simp_all add: cos_sim_def)

lemma cosine_similarity_examples [simp]:
  "cosine_similarity [1, 0] [1, 0] = Inr 1" "cosine_similarity [1, 0] [0, 1] = Inr 0"
  "cosine_similarity [1, 0] [- 1, 0] = Inr (- 1)"
  by (simp_all add: cosine_similarity_total)

lemma HNSW_candidates_eval:
  assumes "sample_op R (hnsw_rng s) (length (items s))
             (nat (min (int (length (items s))) (ef s))) = (ps, r')"
  shows "HNSW_candidates R s =
           (if length ps < length (items s)
            then top_up (ef s) (obj_id ` set (map (\<lambda>p. items s ! p) ps)) (items s)
                   (map (\<lambda>p. items s ! p) ps)
            else map (\<lambda>p. items s ! p) ps, r')"
  by (simp add: HNSW_candidates_def assms)

lemma HNSW_search_eval:
  assumes "int (length query) = dimension s" and "items s \<noteq> []"
    and "HNSW_candidates R s = (cands, r')" and "score_all query cands = Inr scores"
  shows "HNSW_search R s query k =
           (Inr (py_slice 0 k (sort_desc fst scores)), s\<lparr>hnsw_rng := r'\<rparr>)"
  by (simp add: HNSW_search_def assms)

lemma small_ef_candidates_1:
  "HNSW_candidates rot_random small_ef_index = ([item_c, item_b], 2)"
  by code_simp

lemma small_ef_candidates_2:
  "HNSW_candidates rot_random (small_ef_index\<lparr>hnsw_rng := 2\<rparr>) = ([item_a, item_b], 3)"
  by code_simp

lemma score_examples:
  "score_all [1, 0] [item_c, item_b] = Inr [(- 1, [(''text'', ''c'')]), (0, [(''text'', ''b'')])]"
  "score_all [1, 0] [item_a, item_b] = Inr [(1, [(''text'', ''a'')]), (0, [(''text'', ''b'')])]"
  by (simp_all add: score_all_def item_a_def item_b_def item_c_def)

lemma small_ef_search_1:
  "HNSW_search rot_random small_ef_index [1, 0] 1 =
     (Inr [(0, [(''text'', ''b'')])], small_ef_index\<lparr>hnsw_rng := 2\<rparr>)"
proof -
  have "int (length [1, 0 :: real]) = dimension small_ef_index" "items small_ef_index \<noteq> []"
    by (simp_all add: small_ef_index_def)
  from HNSW_search_eval [OF this small_ef_candidates_1 score_examples(1), of 1]
  show ?thesis
    by (simp add: py_slice_prefix sort_desc_def)
qed

lemma small_ef_search_2:
  "HNSW_search rot_random (small_ef_index\<lparr>hnsw_rng := 2\<rparr>) [1, 0] 1 =
     (Inr [(1, [(''text'', ''a'')])], small_ef_index\<lparr>hnsw_rng := 3\<rparr>)"
proof -
  let ?s = "small_ef_index\<lparr>hnsw_rng := 2\<rparr>"
  have "int (length [1, 0 :: real]) = dimension ?s" "items ?s \<noteq> []"
    by (simp_all add: small_ef_index_def)
  from HNSW_search_eval [OF this small_ef_candidates_2 score_examples(2), of 1]
  show ?thesis
    by (simp add: py_slice_prefix sort_desc_def)
qed

lemma tied_search_1:
  "HNSW_search rot_random tied_index [1, 0] 1 =
     (Inr [(1, [(''text'', ''a'')])], tied_index\<lparr>hnsw_rng := 1\<rparr>)"
proof -
  have "int (length [1, 0 :: real]) = dimension tied_index" "items tied_index \<noteq> []"
    by (simp_all add: tied_index_def)
  moreover have "HNSW_candidates rot_random tied_index = ([item_a, item_a2], 1)"
    by code_simp
  moreover have "score_all [1, 0] [item_a, item_a2] =
      Inr [(1, [(''text'', ''a'')]), (1, [(''text'', ''a2'')])]"
    by (simp add: score_all_def item_a_def item_a2_def)
  ultimately have "HNSW_search rot_random tied_index [1, 0] 1 =
      (Inr (py_slice 0 1 (sort_desc fst [(1, [(''text'', ''a'')]), (1, [(''text'', ''a2'')])])),
       tied_index\<lparr>hnsw_rng := 1\<rparr>)"
    by (rule HNSW_search_eval)
  then show ?thesis
    by (simp add: py_slice_prefix sort_desc_def)
qed

lemma tied_search_2:
  "HNSW_search rot_random (tied_index\<lparr>hnsw_rng := 1\<rparr>) [1, 0] 1 =
     (Inr [(1, [(''text'', ''a2'')])], tied_index\<lparr>hnsw_rng := 2\<rparr>)"
proof -
  let ?s = "tied_index\<lparr>hnsw_rng := 1\<rparr>"
  have "int (length [1, 0 :: real]) = dimension ?s" "items ?s \<noteq> []"
    by (simp_all add: tied_index_def)
  moreover have "HNSW_candidates rot_random ?s = ([item_a2, item_a], 2)"
    by code_simp
  moreover have "score_all [1, 0] [item_a2, item_a] =
      Inr [(1, [(''text'', ''a2'')]), (1, [(''text'', ''a'')])]"
    by (simp add: score_all_def item_a_def item_a2_def)
  ultimately have "HNSW_search rot_random ?s [1, 0] 1 =
      (Inr (py_slice 0 1 (sort_desc fst [(1, [(''text'', ''a2'')]), (1, [(''text'', ''a'')])])),
       ?s\<lparr>hnsw_rng := 2\<rparr>)"
    by (rule HNSW_search_eval)
  then show ?thesis
    by (simp add: py_slice_prefix sort_desc_def)
qed

lemma wide_ef_built:
  "HNSWIndex_init rot_random 2 10 (Some (int r)) = Inr ((wide_ef_index r)\<lparr>items := []\<rparr>)"
  "HNSW_add ((wide_ef_index r)\<lparr>items := []\<rparr>) [item_b, item_c, item_a] = (None, wide_ef_index r)"
  by (simp_all add: HNSWIndex_init_def wide_ef_index_def rot_random_def
      item_a_def item_b_def item_c_def)

lemma small_ef_built:
  "HNSWIndex_init rot_random 2 1 (Some 1) = Inr (small_ef_index\<lparr>items := []\<rparr>)"
  "HNSW_add (small_ef_index\<lparr>items := []\<rparr>) [item_b, item_c, item_a] = (None, small_ef_index)"
  by (simp_all add: HNSWIndex_init_def small_ef_index_def rot_random_def
      item_a_def item_b_def item_c_def)

lemma tied_built:
  "HNSWIndex_init rot_random 2 10 (Some 0) = Inr (tied_index\<lparr>items := []\<rparr>)"
  "HNSW_add (tied_index\<lparr>items := []\<rparr>) [item_a, item_a2] = (None, tied_index)"
  by (simp_all add: HNSWIndex_init_def tied_index_def rot_random_def item_a_def item_a2_def)

lemma exact_top_k_example:
  "exact_top_k [1, 0] 2 [item_b, item_c, item_a] =
     [(1, [(''text'', ''a'')]), (0, [(''text'', ''b'')])]"
  by (simp add: exact_top_k_def scored_def sort_desc_def item_a_def item_b_def item_c_def)

lemma distinct_scores_example:
  "distinct (map fst (map (scored [1, 0]) [item_b, item_c, item_a]))"
  by (simp add: scored_def item_a_def item_b_def item_c_def)

lemma HNSW_built:
  assumes "HNSWIndex_init R d ef0 seed = Inr s0" and "HNSW_add s0 its = (None, s)"
  shows "items s = its" and "dimension s = d" and "ef s = max ef0 1"
    and "\<forall>it \<in> set (items s). int (length (vector it)) = dimension s"
  using assms HNSW_add_None [OF assms(2)] by (auto simp: HNSWIndex_init_def)

lemma wide_ef_search:
  "fst (HNSW_search rot_random (wide_ef_index r) [1, 0] 2) =
     Inr [(1, [(''text'', ''a'')]), (0, [(''text'', ''b'')])]"
proof -
  have "\<forall>it \<in> set (items (wide_ef_index r)).
          int (length (vector it)) = dimension (wide_ef_index r)"
    "int (length (items (wide_ef_index r))) \<le> ef (wide_ef_index r)"
    "int (length [1, 0 :: real]) = dimension (wide_ef_index r)" "(0 :: int) \<le> 2"
    by (simp_all add: wide_ef_index_def item_a_def item_b_def item_c_def)
  from hnsw_full_scan [OF rot_random_valid_sample this] distinct_scores_example
  show ?thesis
    by (auto simp: wide_ef_index_def exact_top_k_example)
qed

subsection \<open>Embedding\<close>

lemma l2_norm_zero_iff: "l2_norm v = 0 \<longleftrightarrow> (\<forall>x \<in> set v. x = 0)"
proof -
  have "sum_list (map (\<lambda>value. value * value) v) = 0 \<longleftrightarrow>
        (\<forall>y \<in> set (map (\<lambda>value. value * value) v). y = 0)"
    by (rule sum_list_nonneg_eq_0_iff) auto
  then show ?thesis
    by (simp add: l2_norm_def)
qed

lemma zero_vector_iff: "v = zero_vector d \<longleftrightarrow> length v = nat d \<and> (\<forall>x \<in> set v. x = 0)"
  unfolding zero_vector_def by (metis in_set_replicate length_replicate replicate_eqI)

lemma normalise_zero: "l2_norm v = 0 \<Longrightarrow> normalise v = Inr v"
  by (simp add: normalise_def)

lemma normalise_nonzero:
  assumes "l2_norm v \<noteq> 0"
  shows "normalise v = Inr (map (\<lambda>value. value / l2_norm v) v)"
    and "l2_norm (map (\<lambda>value. value / l2_norm v) v) = 1"
proof -
  let ?S = "sum_list (map (\<lambda>value. value * value) v)"
  let ?c = "l2_norm v"
  have "traverse (\<lambda>value. truediv value ?c) v = Inr (map (\<lambda>value. value / ?c) v)"
    using assms by (intro traverse_total) (simp add: truediv_def)
  then show "normalise v = Inr (map (\<lambda>value. value / ?c) v)"
    using assms by (simp add: normalise_def)
  have "0 \<le> ?S"
    by (rule sum_list_nonneg) auto
  then have cc: "?c * ?c = ?S"
    by (simp add: l2_norm_def)
  have "?S \<noteq> 0"
    using assms by (auto simp: l2_norm_def)
  have "sum_list (map (\<lambda>x. x * x) (map (\<lambda>value. value / ?c) v)) =
        sum_list (map (\<lambda>x. (1 / (?c * ?c)) * (x * x)) v)"
    by (simp add: comp_def)
  also have "\<dots> = (1 / (?c * ?c)) * ?S"
    by (rule sum_list_const_mult)
  also have "\<dots> = 1"
    using \<open>?S \<noteq> 0\<close> by (simp add: cc)
  finally show "l2_norm (map (\<lambda>value. value / ?c) v) = 1"
    by (simp add: l2_norm_def)
qed

lemma py_index_add_in_range:
  "0 \<le> i \<Longrightarrow> i < int (length v) \<Longrightarrow> py_index_add v i x = Inr (v[nat i := v ! nat i + x])"
  by (simp add: py_index_add_def)

lemma sum_list_bump: "i < length v \<Longrightarrow> sum_list (v[i := v ! i + x]) = sum_list v + (x :: real)"
  by (induction v arbitrary: i) (auto split: nat.splits)

lemma accumulate_total:
  assumes "0 < d"
  shows "length v = nat d \<Longrightarrow> \<forall>x \<in> set v. 0 \<le> x \<Longrightarrow>
    \<exists>v'. accumulate hash d grams v = Inr v' \<and> length v' = nat d \<and> (\<forall>x \<in> set v'. 0 \<le> x) \<and>
         sum_list v' = sum_list v + real (sum_list (map snd grams))"
proof (induction grams arbitrary: v)
  case Nil
  then show ?case by simp
next
  case (Cons g grams)
  obtain gram cnt where g: "g = (gram, cnt)"
    by (cases g)
  let ?b = "hash gram mod d"
  let ?v = "v[nat ?b := v ! nat ?b + real cnt]"
  have b: "0 \<le> ?b" "?b < int (length v)"
    using assms Cons.prems(1) by simp_all
  then have nb: "nat ?b < length v"
    by linarith
  have step: "py_index_add v ?b (real cnt) = Inr ?v"
    using b by (rule py_index_add_in_range)
  have "length ?v = nat d"
    using Cons.prems(1) by simp
  moreover have "\<forall>x \<in> set ?v. 0 \<le> x"
  proof
    fix x assume "x \<in> set ?v"
    then have "x \<in> insert (v ! nat ?b + real cnt) (set v)"
      using set_update_subset_insert by fastforce
    moreover have "0 \<le> v ! nat ?b"
      using Cons.prems(2) nb by simp
    ultimately show "0 \<le> x"
      using Cons.prems(2) by auto
  qed
  ultimately obtain v' where v': "accumulate hash d grams ?v = Inr v'" "length v' = nat d"
      "\<forall>x \<in> set v'. 0 \<le> x" "sum_list v' = sum_list ?v + real (sum_list (map snd grams))"
    using Cons.IH by blast
  have "accumulate hash d (g # grams) v = Inr v'"
    using assms step v'(1) by (simp add: g py_mod_def)
  moreover have "sum_list v' = sum_list v + real (sum_list (map snd (g # grams)))"
    using v'(4) nb by (simp add: g sum_list_bump)
  ultimately show ?case
    using v'(2,3) by blast
qed

lemma counter_incr_positive:
  "list_all (\<lambda>e. 0 < snd e) grams \<Longrightarrow> list_all (\<lambda>e. 0 < snd e) (counter_incr g grams)"
  by (induction grams) auto

lemma foldl_counter_positive:
  "list_all (\<lambda>e. 0 < snd e) grams \<Longrightarrow>
     list_all (\<lambda>e. 0 < snd e) (foldl (\<lambda>grams x. counter_incr (f x) grams) grams xs)"
  by (induction xs arbitrary: grams) (simp_all add: counter_incr_positive)

lemma foldl_foldl_counter_positive:
  "list_all (\<lambda>e. 0 < snd e) grams \<Longrightarrow>
     list_all (\<lambda>e. 0 < snd e)
       (foldl (\<lambda>grams n. foldl (\<lambda>grams x. counter_incr (f n x) grams) grams (r n)) grams ns)"
  by (induction ns arbitrary: grams) (simp_all add: foldl_counter_positive)

lemma generate_ngrams_positive:
  "list_all (\<lambda>e. 0 < snd e) (generate_ngrams lower m text)"
  unfolding generate_ngrams_def Let_def
  by (rule foldl_foldl_counter_positive) simp

lemma positive_counts_sum:
  fixes grams :: "('a \<times> nat) list"
  shows "list_all (\<lambda>e. 0 < snd e) grams \<Longrightarrow> grams \<noteq> [] \<Longrightarrow> 0 < sum_list (map snd grams)"
  by (cases grams) auto

lemma features_total:
  assumes "0 < em_dimension m"
  shows "\<exists>acc. features hash lower m text = Inr acc \<and> length acc = nat (em_dimension m) \<and>
           (acc = zero_vector (em_dimension m) \<longleftrightarrow> generate_ngrams lower m text = [])"
proof -
  let ?d = "em_dimension m"
  let ?grams = "generate_ngrams lower m text"
  have z: "length (zero_vector ?d) = nat ?d" "\<forall>x \<in> set (zero_vector ?d). 0 \<le> x"
    "sum_list (zero_vector ?d) = 0"
    by (simp_all add: zero_vector_def sum_list_replicate)
  from accumulate_total [OF assms z(1,2), of hash ?grams]
  obtain acc where acc: "accumulate hash ?d ?grams (zero_vector ?d) = Inr acc"
      "length acc = nat ?d" "sum_list acc = real (sum_list (map snd ?grams))"
    using z(3) by auto
  have "acc = zero_vector ?d \<longleftrightarrow> ?grams = []"
  proof
    assume "acc = zero_vector ?d"
    then have s0: "sum_list (map snd ?grams) = 0"
      using acc(3) z(3) by simp
    show "?grams = []"
    proof (rule ccontr)
      assume "?grams \<noteq> []"
      with generate_ngrams_positive have "0 < sum_list (map snd ?grams)"
        by (rule positive_counts_sum)
      with s0 show False
        by linarith
    qed
  next
    assume "?grams = []"
    then show "acc = zero_vector ?d"
      using acc(1) by simp
  qed
  then show ?thesis
    using acc(1,2) by (simp add: features_def)
qed

lemma unigram_features:
  "features length_hash (\<lambda>t. t) unigram_model ''ab'' = Inr [0, 2]"
  "generate_ngrams (\<lambda>t. t) unigram_model [] = []"
  by code_simp+

subsection \<open>Training\<close>

lemma traverse_nth_checked:
  "traverse (nth_checked xs) ps = Inr ys \<Longrightarrow> length ys = length ps \<and> set ys \<subseteq> set xs"
  by (induction ps arbitrary: ys) (auto simp: nth_checked_def split: sum.splits if_splits)

lemma noise_vector_length: "length (fst (noise_vector R r n)) = n"
  by (induction n arbitrary: r) (simp_all add: split_def Let_def)

lemma pad_noise_shape:
  "length (fst (pad_noise R r m d)) = m \<and> (\<forall>v \<in> set (fst (pad_noise R r m d)). length v = d)"
  by (induction m arbitrary: r) (simp_all add: split_def Let_def noise_vector_length)

lemma initialise_centroids_shape:
  assumes "initialise_centroids R s data = Inr s1" and "0 < n_lists s"
  shows "length (centroids s1) = nat (n_lists s)"
    and "dimension s1 = dimension s" and "n_lists s1 = n_lists s" and "iterations s1 = iterations s"
    and "\<forall>v \<in> set data. length v = nat (dimension s) \<Longrightarrow>
         \<forall>c \<in> set (centroids s1). length c = nat (dimension s)"
proof -
  let ?indices = "fst (shuffle_op R (ivf_rng s) (length data))"
  let ?r1 = "snd (shuffle_op R (ivf_rng s) (length data))"
  let ?selected = "take (nat (n_lists s)) ?indices"
  have sel: "py_slice 0 (n_lists s) ?indices = ?selected"
    using assms(2) by (simp add: py_slice_prefix)
  obtain cs where cs: "traverse (nth_checked data) ?selected = Inr cs"
  proof (cases "traverse (nth_checked data) ?selected")
    case (Inl e)
    then have "initialise_centroids R s data = Inl e"
      by (simp add: initialise_centroids_def split_def Let_def sel)
    with assms(1) show ?thesis
      by simp
  next
    case (Inr cs)
    then show ?thesis
      by (rule that)
  qed
  let ?pad = "pad_noise R ?r1 (nat (n_lists s - int (length cs))) (nat (dimension s))"
  let ?extra = "if int (length cs) < n_lists s then fst ?pad else []"
  let ?r2 = "if int (length cs) < n_lists s then snd ?pad else ?r1"
  have s1: "s1 = s\<lparr>ivf_rng := ?r2, centroids := cs @ ?extra,
                    ivf_lists := replicate (length (cs @ ?extra)) []\<rparr>"
    using assms(1) cs
    by (cases "int (length cs) < n_lists s")
      (simp_all add: initialise_centroids_def split_def Let_def sel)
  have len: "length cs \<le> nat (n_lists s)" and sub: "set cs \<subseteq> set data"
    using traverse_nth_checked [OF cs] by simp_all
  show "length (centroids s1) = nat (n_lists s)"
    using len by (auto simp: s1 pad_noise_shape)
  show "dimension s1 = dimension s" "n_lists s1 = n_lists s" "iterations s1 = iterations s"
    by (simp_all add: s1)
  show "\<forall>c \<in> set (centroids s1). length c = nat (dimension s)"
    if "\<forall>v \<in> set data. length v = nat (dimension s)"
    using that sub pad_noise_shape [of R ?r1 "nat (n_lists s - int (length cs))" "nat (dimension s)"]
    by (auto simp: s1)
qed

lemma add_into_length: "add_into c v = Inr c' \<Longrightarrow> length c' = length c"
  by (induction c v arbitrary: c' rule: add_into.induct) (auto split: sum.splits)

lemma sum_assigned_length: "sum_assigned c vs = Inr c' \<Longrightarrow> length c' = length c"
  by (induction vs arbitrary: c) (auto split: sum.splits dest: add_into_length)

lemma recompute_length: "recompute d assigned = Inr c \<Longrightarrow> length c = nat d"
  by (auto simp: recompute_def zero_vector_def split: sum.splits
      dest!: sum_assigned_length traverse_length)

lemma set_update_length:
  assumes "\<forall>c \<in> set cs. length c = n" and "length x = n"
  shows "\<forall>c \<in> set (cs[idx := x]). length c = n"
proof
  fix c assume "c \<in> set (cs[idx := x])"
  then have "c = x \<or> c \<in> set cs"
    using set_update_subset_insert [of cs idx x] by blast
  then show "length c = n"
    using assms by blast
qed

lemma update_centroids_shape:
  "update_centroids d idx assignments cs = Inr cs' \<Longrightarrow>
     length cs' = length cs \<and>
     ((\<forall>c \<in> set cs. length c = nat d) \<longrightarrow> (\<forall>c \<in> set cs'. length c = nat d))"
proof (induction assignments arbitrary: idx cs)
  case Nil
  then show ?case by simp
next
  case (Cons assigned rest)
  show ?case
  proof (cases "assigned = []")
    case True
    with Cons.prems have "update_centroids d (Suc idx) rest cs = Inr cs'"
      by simp
    then show ?thesis
      by (rule Cons.IH)
  next
    case False
    show ?thesis
    proof (cases "recompute d assigned")
      case (Inl e)
      with False Cons.prems show ?thesis
        by simp
    next
      case (Inr centroid)
      show ?thesis
      proof (cases "idx < length cs")
        case False
        with \<open>assigned \<noteq> []\<close> Inr Cons.prems show ?thesis
          by simp
      next
        case True
        with \<open>assigned \<noteq> []\<close> Inr Cons.prems
        have rest: "update_centroids d (Suc idx) rest (cs[idx := centroid]) = Inr cs'"
          by simp
        note ih = Cons.IH [OF rest]
        have len: "length cs' = length cs"
          using ih by simp
        have "\<forall>c \<in> set cs'. length c = nat d" if a: "\<forall>c \<in> set cs. length c = nat d"
        proof -
          have "\<forall>c \<in> set (cs[idx := centroid]). length c = nat d"
            using a recompute_length [OF Inr] by (rule set_update_length)
          with ih show ?thesis
            by blast
        qed
        with len show ?thesis
          by blast
      qed
    qed
  qed
qed

lemma fit_rounds_shape:
  "fit_rounds n d data cs = Inr cs' \<Longrightarrow>
     length cs' = length cs \<and>
     ((\<forall>c \<in> set cs. length c = nat d) \<longrightarrow> (\<forall>c \<in> set cs'. length c = nat d))"
proof (induction n arbitrary: cs)
  case 0
  then show ?case by simp
next
  case (Suc n)
  show ?case
  proof (cases "assign_all cs data (replicate (length cs) [])")
    case (Inl e)
    with Suc.prems show ?thesis
      by simp
  next
    case a: (Inr assignments)
    show ?thesis
    proof (cases "update_centroids d 0 assignments cs")
      case (Inl e)
      with a Suc.prems show ?thesis
        by simp
    next
      case u: (Inr cs1)
      with a Suc.prems have r: "fit_rounds n d data cs1 = Inr cs'"
        by simp
      note u' = update_centroids_shape [OF u] and r' = Suc.IH [OF r]
      have "length cs' = length cs"
        using u' r' by simp
      moreover have "\<forall>c \<in> set cs'. length c = nat d" if "\<forall>c \<in> set cs. length c = nat d"
        using that u' r' by blast
      ultimately show ?thesis
        by blast
    qed
  qed
qed

lemma fit_InrE:
  assumes "fit R s data = Inr s'"
  obtains s1 cs where "n_lists s \<le> int (length data)"
    and "\<forall>v \<in> set data. int (length v) = dimension s"
    and "initialise_centroids R s data = Inr s1"
    and "fit_rounds (nat (iterations s)) (dimension s) data (centroids s1) = Inr cs"
    and "s' = s1\<lparr>centroids := cs, ivf_lists := replicate (length cs) []\<rparr>"
proof -
  have 1: "\<not> int (length data) < n_lists s"
  proof
    assume "int (length data) < n_lists s"
    then have "fit R s data = Inl InvalidConfig"
      by (simp add: fit_def)
    with assms show False
      by simp
  qed
  have 2: "\<not> (\<exists>v \<in> set data. int (length v) \<noteq> dimension s)"
  proof
    assume "\<exists>v \<in> set data. int (length v) \<noteq> dimension s"
    with 1 have "fit R s data = Inl DimensionMismatch"
      by (simp add: fit_def)
    with assms show False
      by simp
  qed
  have unfold: "fit R s data =
      (case initialise_centroids R s data of
         Inl e \<Rightarrow> Inl e
       | Inr s1 \<Rightarrow>
           (case fit_rounds (nat (iterations s)) (dimension s) data (centroids s1) of
              Inl e \<Rightarrow> Inl e
            | Inr cs \<Rightarrow> Inr (s1\<lparr>centroids := cs, ivf_lists := replicate (length cs) []\<rparr>)))"
    using 1 2 by (simp only: fit_def if_False)
  show ?thesis
  proof (cases "initialise_centroids R s data")
    case (Inl e)
    with unfold assms show ?thesis
      by simp
  next
    case i: (Inr s1)
    show ?thesis
    proof (cases "fit_rounds (nat (iterations s)) (dimension s) data (centroids s1)")
      case (Inl e)
      with unfold i assms show ?thesis
        by simp
    next
      case (Inr cs)
      with unfold i assms have "s' = s1\<lparr>centroids := cs, ivf_lists := replicate (length cs) []\<rparr>"
        by simp
      with 1 2 i Inr show ?thesis
        by (intro that [of s1 cs]) auto
    qed
  qed
qed

lemma fit_shape:
  assumes "fit R s data = Inr s'" and "0 < n_lists s"
  shows "length (centroids s') = nat (n_lists s)"
    and "ivf_lists s' = replicate (nat (n_lists s)) []"
    and "dimension s' = dimension s" and "n_lists s' = n_lists s"
    and "\<forall>c \<in> set (centroids s'). int (length c) = dimension s"
proof -
  from assms(1) obtain s1 cs where data: "n_lists s \<le> int (length data)"
    and dims: "\<forall>v \<in> set data. int (length v) = dimension s"
    and i: "initialise_centroids R s data = Inr s1"
    and r: "fit_rounds (nat (iterations s)) (dimension s) data (centroids s1) = Inr cs"
    and s': "s' = s1\<lparr>centroids := cs, ivf_lists := replicate (length cs) []\<rparr>"
    by (rule fit_InrE)
  have "data \<noteq> []"
    using data assms(2) by auto
  then have d: "0 \<le> dimension s"
    using dims by (cases data) auto
  have dims': "\<forall>v \<in> set data. length v = nat (dimension s)"
    using dims by auto
  note init = initialise_centroids_shape [OF i assms(2)]
  note rounds = fit_rounds_shape [OF r]
  show "length (centroids s') = nat (n_lists s)"
    using init(1) rounds by (simp add: s')
  then show "ivf_lists s' = replicate (nat (n_lists s)) []"
    by (simp add: s')
  show "dimension s' = dimension s" "n_lists s' = n_lists s"
    using init(2,3) by (simp_all add: s')
  have "\<forall>c \<in> set cs. length c = nat (dimension s)"
    using init(5) [OF dims'] rounds by simp
  then show "\<forall>c \<in> set (centroids s'). int (length c) = dimension s"
    using d by (simp add: s')
qed

lemma fit_trained:
  assumes "fit R s data = Inr s'" and "0 < n_lists s"
  shows "ivf_trained s'"
  using fit_shape [OF assms] assms(2)
  by (auto simp: ivf_trained_def)

subsection \<open>Assignment to the nearest centroid\<close>

lemma argmax_scan:
  fixes scores :: "real list"
  assumes "best < length scores" and "\<forall>i \<in> set idxs. i < length scores"
  shows "foldl (\<lambda>best idx. if scores ! idx > scores ! best then idx else best) best idxs
           < length scores \<and>
         scores ! best \<le>
           scores ! foldl (\<lambda>best idx. if scores ! idx > scores ! best then idx else best) best idxs \<and>
         (\<forall>i \<in> set idxs. scores ! i \<le>
           scores ! foldl (\<lambda>best idx. if scores ! idx > scores ! best then idx else best) best idxs)"
  using assms
proof (induction idxs arbitrary: best)
  case Nil
  then show ?case by simp
next
  case (Cons i idxs)
  let ?step = "\<lambda>best idx. if scores ! idx > scores ! best then idx else best"
  let ?b = "?step best i"
  have b: "?b < length scores" and rest: "\<forall>i \<in> set idxs. i < length scores"
    using Cons.prems by auto
  have le: "scores ! best \<le> scores ! ?b" "scores ! i \<le> scores ! ?b"
    by auto
  from Cons.IH [OF b rest] have ih: "foldl ?step ?b idxs < length scores"
    "scores ! ?b \<le> scores ! foldl ?step ?b idxs"
    "\<forall>i \<in> set idxs. scores ! i \<le> scores ! foldl ?step ?b idxs"
    by blast+
  have f: "foldl ?step best (i # idxs) = foldl ?step ?b idxs"
    by simp
  show ?case
    unfolding f using ih le by (auto intro: order_trans)
qed

lemma argmax_first_props:
  assumes "scores \<noteq> []"
  shows "argmax_first scores < length scores"
    and "\<forall>j < length scores. scores ! j \<le> scores ! argmax_first scores"
proof -
  have "0 < length scores" "\<forall>i \<in> set [1 ..< length scores]. i < length scores"
    using assms by simp_all
  from argmax_scan [OF this] have 1: "argmax_first scores < length scores"
    and 2: "scores ! 0 \<le> scores ! argmax_first scores"
    and 3: "\<forall>i \<in> set [1 ..< length scores]. scores ! i \<le> scores ! argmax_first scores"
    unfolding argmax_first_def by blast+
  show "argmax_first scores < length scores"
    by (rule 1)
  show "\<forall>j < length scores. scores ! j \<le> scores ! argmax_first scores"
  proof (intro allI impI)
    fix j assume "j < length scores"
    then have "j = 0 \<or> j \<in> set [1 ..< length scores]"
      by auto
    then show "scores ! j \<le> scores ! argmax_first scores"
      using 2 3 by blast
  qed
qed

lemma assign_total:
  assumes "cs \<noteq> []" and "\<forall>c \<in> set cs. length c = length v"
  shows "assign cs v = Inr (argmax_first (map (cos_sim v) cs))"
    and "argmax_first (map (cos_sim v) cs) < length cs"
    and "\<forall>j < length cs. cos_sim v (cs ! j) \<le> cos_sim v (cs ! argmax_first (map (cos_sim v) cs))"
proof -
  have "traverse (cosine_similarity v) cs = Inr (map (cos_sim v) cs)"
    using assms(2) by (intro traverse_total) (simp add: cosine_similarity_total)
  then show "assign cs v = Inr (argmax_first (map (cos_sim v) cs))"
    using assms(1) by (simp add: assign_def)
  show b: "argmax_first (map (cos_sim v) cs) < length cs"
    using argmax_first_props(1) [of "map (cos_sim v) cs"] assms(1) by simp
  show "\<forall>j < length cs. cos_sim v (cs ! j) \<le> cos_sim v (cs ! argmax_first (map (cos_sim v) cs))"
  proof (intro allI impI)
    fix j assume j: "j < length cs"
    from argmax_first_props(2) [of "map (cos_sim v) cs"] assms(1) j b show
      "cos_sim v (cs ! j) \<le> cos_sim v (cs ! argmax_first (map (cos_sim v) cs))"
      by simp
  qed
qed

subsection \<open>Adding to a trained index\<close>

lemma mset_concat_append_at:
  "i < length xss \<Longrightarrow> mset (concat (xss[i := xss ! i @ [x]])) = add_mset x (mset (concat xss))"
proof (induction xss arbitrary: i)
  case Nil
  then show ?case by simp
next
  case (Cons xs xss)
  show ?case
  proof (cases i)
    case 0
    then show ?thesis by simp
  next
    case (Suc j)
    with Cons.prems have "j < length xss"
      by simp
    from Cons.IH [OF this] Suc show ?thesis
      by simp
  qed
qed

lemma ivf_trainedD:
  assumes "ivf_trained s"
  shows "centroids s \<noteq> []" and "length (ivf_lists s) = length (centroids s)"
    and "\<forall>c \<in> set (centroids s). int (length c) = dimension s"
    and "\<forall>i < length (ivf_lists s). \<forall>it \<in> set (ivf_lists s ! i).
           int (length (vector it)) = dimension s \<and> assign (centroids s) (vector it) = Inr i"
  using assms unfolding ivf_trained_def by blast+

lemma assign_trained:
  assumes "ivf_trained s" and "int (length v) = dimension s"
  shows "assign (centroids s) v = Inr (argmax_first (map (cos_sim v) (centroids s)))"
    and "argmax_first (map (cos_sim v) (centroids s)) < length (centroids s)"
    and "\<forall>j < length (centroids s).
           cos_sim v (centroids s ! j)
             \<le> cos_sim v (centroids s ! argmax_first (map (cos_sim v) (centroids s)))"
proof -
  have "\<forall>c \<in> set (centroids s). length c = length v"
    using ivf_trainedD(3) [OF assms(1)] assms(2) by auto
  with ivf_trainedD(1) [OF assms(1)] show
    "assign (centroids s) v = Inr (argmax_first (map (cos_sim v) (centroids s)))"
    "argmax_first (map (cos_sim v) (centroids s)) < length (centroids s)"
    "\<forall>j < length (centroids s).
           cos_sim v (centroids s ! j)
             \<le> cos_sim v (centroids s ! argmax_first (map (cos_sim v) (centroids s)))"
    by (rule assign_total)+
qed

lemma ivf_trained_append:
  assumes tr: "ivf_trained s" and dim: "int (length (vector item)) = dimension s"
    and b: "assign (centroids s) (vector item) = Inr b" and lt: "b < length (ivf_lists s)"
  shows "ivf_trained (s\<lparr>ivf_lists := (ivf_lists s)[b := ivf_lists s ! b @ [item]]\<rparr>)"
proof -
  let ?ls = "(ivf_lists s)[b := ivf_lists s ! b @ [item]]"
  note t = ivf_trainedD [OF tr]
  have "int (length (vector it)) = dimension s \<and> assign (centroids s) (vector it) = Inr i"
    if "i < length ?ls" and "it \<in> set (?ls ! i)" for i it
  proof (cases "i = b")
    case True
    with that lt have "it = item \<or> it \<in> set (ivf_lists s ! b)"
      by auto
    then show ?thesis
      using True dim b t(4) lt by blast
  next
    case False
    with that have "i < length (ivf_lists s)" "it \<in> set (ivf_lists s ! i)"
      by simp_all
    then show ?thesis
      using t(4) by blast
  qed
  then show ?thesis
    using t(1,2,3) by (simp add: ivf_trained_def)
qed

lemma IVF_add_loop_step:
  assumes tr: "ivf_trained s" and dim: "int (length (vector item)) = dimension s"
  shows "\<exists>b < length (ivf_lists s).
           assign (centroids s) (vector item) = Inr b \<and>
           (\<forall>j < length (centroids s).
              cos_sim (vector item) (centroids s ! j) \<le> cos_sim (vector item) (centroids s ! b)) \<and>
           ivf_trained (s\<lparr>ivf_lists := (ivf_lists s)[b := ivf_lists s ! b @ [item]]\<rparr>) \<and>
           IVF_add_loop s (item # rest) =
             IVF_add_loop (s\<lparr>ivf_lists := (ivf_lists s)[b := ivf_lists s ! b @ [item]]\<rparr>) rest"
proof -
  let ?b = "argmax_first (map (cos_sim (vector item)) (centroids s))"
  note a = assign_trained [OF tr dim]
  have lt: "?b < length (ivf_lists s)"
    using a(2) ivf_trainedD(2) [OF tr] by simp
  have "IVF_add_loop s (item # rest) =
      IVF_add_loop (s\<lparr>ivf_lists := (ivf_lists s)[?b := ivf_lists s ! ?b @ [item]]\<rparr>) rest"
    using dim a(1) lt by (simp add: append_at_def)
  with lt a(1,3) ivf_trained_append [OF tr dim a(1) lt] show ?thesis
    by blast
qed

lemma IVF_add_loop_valid:
  "ivf_trained s \<Longrightarrow> \<forall>it \<in> set its. int (length (vector it)) = dimension s \<Longrightarrow>
     \<exists>s'. IVF_add_loop s its = (None, s') \<and> ivf_trained s' \<and>
          mset (concat (ivf_lists s')) = mset (concat (ivf_lists s)) + mset its"
proof (induction its arbitrary: s)
  case Nil
  then show ?case by simp
next
  case (Cons item its)
  from Cons.prems(2) have dim: "int (length (vector item)) = dimension s"
    by simp
  from IVF_add_loop_step [OF Cons.prems(1) dim, of its] obtain b where
    b: "b < length (ivf_lists s)"
    and tr: "ivf_trained (s\<lparr>ivf_lists := (ivf_lists s)[b := ivf_lists s ! b @ [item]]\<rparr>)"
    and step: "IVF_add_loop s (item # its) =
      IVF_add_loop (s\<lparr>ivf_lists := (ivf_lists s)[b := ivf_lists s ! b @ [item]]\<rparr>) its"
    by blast
  let ?s = "s\<lparr>ivf_lists := (ivf_lists s)[b := ivf_lists s ! b @ [item]]\<rparr>"
  have "\<forall>it \<in> set its. int (length (vector it)) = dimension ?s"
    using Cons.prems(2) by simp
  from Cons.IH [OF tr this] obtain s' where
    s': "IVF_add_loop ?s its = (None, s')" "ivf_trained s'"
      "mset (concat (ivf_lists s')) = mset (concat (ivf_lists ?s)) + mset its"
    by blast
  have "mset (concat (ivf_lists s')) = mset (concat (ivf_lists s)) + mset (item # its)"
    using s'(3) mset_concat_append_at [OF b, of item] by simp
  with s'(1,2) step show ?case
    by simp
qed

lemma IVF_add_loop_fixed:
  "centroids (snd (IVF_add_loop s its)) = centroids s \<and>
   dimension (snd (IVF_add_loop s its)) = dimension s \<and>
   n_lists (snd (IVF_add_loop s its)) = n_lists s"
proof (induction its arbitrary: s)
  case Nil
  then show ?case by simp
next
  case (Cons item its)
  show ?case
  proof (cases "int (length (vector item)) \<noteq> dimension s")
    case True
    then show ?thesis by simp
  next
    case dim: False
    show ?thesis
    proof (cases "assign (centroids s) (vector item)")
      case (Inl e)
      with dim show ?thesis by simp
    next
      case b: (Inr b)
      show ?thesis
      proof (cases "append_at (ivf_lists s) b item")
        case (Inl e)
        with dim b show ?thesis by simp
      next
        case (Inr ls)
        with dim b have "IVF_add_loop s (item # its) = IVF_add_loop (s\<lparr>ivf_lists := ls\<rparr>) its"
          by simp
        with Cons.IH [of "s\<lparr>ivf_lists := ls\<rparr>"] show ?thesis
          by simp
      qed
    qed
  qed
qed

lemma IVF_add_loop_trained:
  "ivf_trained s \<Longrightarrow> ivf_trained (snd (IVF_add_loop s its))"
proof (induction its arbitrary: s)
  case Nil
  then show ?case by simp
next
  case (Cons item its)
  show ?case
  proof (cases "int (length (vector item)) = dimension s")
    case False
    with Cons.prems show ?thesis by simp
  next
    case True
    from IVF_add_loop_step [OF Cons.prems True, of its] obtain b where
      tr: "ivf_trained (s\<lparr>ivf_lists := (ivf_lists s)[b := ivf_lists s ! b @ [item]]\<rparr>)"
      and step: "IVF_add_loop s (item # its) =
        IVF_add_loop (s\<lparr>ivf_lists := (ivf_lists s)[b := ivf_lists s ! b @ [item]]\<rparr>) its"
      by blast
    from Cons.IH [OF tr] step show ?thesis
      by simp
  qed
qed

lemma IVF_add_loop_None_dims:
  "ivf_trained s \<Longrightarrow> IVF_add_loop s its = (None, s') \<Longrightarrow>
     \<forall>it \<in> set its. int (length (vector it)) = dimension s"
proof (induction its arbitrary: s)
  case Nil
  then show ?case by simp
next
  case (Cons item its)
  have dim: "int (length (vector item)) = dimension s"
  proof (rule ccontr)
    assume "int (length (vector item)) \<noteq> dimension s"
    then have "IVF_add_loop s (item # its) = (Some DimensionMismatch, s)"
      by simp
    with Cons.prems(2) show False
      by simp
  qed
  from IVF_add_loop_step [OF Cons.prems(1) dim, of its] obtain b where
    tr: "ivf_trained (s\<lparr>ivf_lists := (ivf_lists s)[b := ivf_lists s ! b @ [item]]\<rparr>)"
    and step: "IVF_add_loop s (item # its) =
      IVF_add_loop (s\<lparr>ivf_lists := (ivf_lists s)[b := ivf_lists s ! b @ [item]]\<rparr>) its"
    by blast
  from Cons.IH [OF tr] step Cons.prems(2) dim show ?case
    by simp
qed

lemma IVF_add_loop_offending:
  "ivf_trained s \<Longrightarrow> \<forall>it \<in> set pre. int (length (vector it)) = dimension s \<Longrightarrow>
   int (length (vector bad)) \<noteq> dimension s \<Longrightarrow>
     IVF_add_loop s (pre @ bad # post) = (Some DimensionMismatch, snd (IVF_add_loop s pre))"
proof (induction pre arbitrary: s)
  case Nil
  then show ?case by simp
next
  case (Cons item pre)
  from Cons.prems(2) have dim: "int (length (vector item)) = dimension s"
    by simp
  let ?P = "\<lambda>b rest. IVF_add_loop s (item # rest) =
      IVF_add_loop (s\<lparr>ivf_lists := (ivf_lists s)[b := ivf_lists s ! b @ [item]]\<rparr>) rest"
  from IVF_add_loop_step [OF Cons.prems(1) dim, of "pre @ bad # post"] obtain b where
    b: "assign (centroids s) (vector item) = Inr b" "b < length (ivf_lists s)"
    and tr: "ivf_trained (s\<lparr>ivf_lists := (ivf_lists s)[b := ivf_lists s ! b @ [item]]\<rparr>)"
    and step: "?P b (pre @ bad # post)"
    by blast
  have step': "?P b pre"
    using dim b by (simp add: append_at_def)
  let ?s = "s\<lparr>ivf_lists := (ivf_lists s)[b := ivf_lists s ! b @ [item]]\<rparr>"
  have "\<forall>it \<in> set pre. int (length (vector it)) = dimension ?s"
    "int (length (vector bad)) \<noteq> dimension ?s"
    using Cons.prems(2,3) by simp_all
  from Cons.IH [OF tr this] step step' show ?case
    by simp
qed

lemma ivf_run_trained:
  "ivf_trained s \<Longrightarrow>
     ivf_trained (ivf_run s calls) \<and> centroids (ivf_run s calls) = centroids s \<and>
     dimension (ivf_run s calls) = dimension s \<and> n_lists (ivf_run s calls) = n_lists s"
  unfolding ivf_run_def
proof (induction calls arbitrary: s)
  case Nil
  then show ?case by simp
next
  case (Cons c calls)
  have "ivf_trained (ivf_call_state s c) \<and> centroids (ivf_call_state s c) = centroids s \<and>
     dimension (ivf_call_state s c) = dimension s \<and> n_lists (ivf_call_state s c) = n_lists s"
  proof (cases c)
    case (Add its)
    then show ?thesis
      using Cons.prems ivf_trainedD(1) [OF Cons.prems] IVF_add_loop_trained [OF Cons.prems, of its]
        IVF_add_loop_fixed [of s its]
      by (simp add: IVF_add_def)
  next
    case (Search q k np)
    then show ?thesis
      using Cons.prems by simp
  qed
  with Cons.IH [of "ivf_call_state s c"] show ?case
    by simp
qed

subsection \<open>Searching a trained index\<close>

lemma mset_concat_cong: "mset xss = mset yss \<Longrightarrow> mset (concat xss) = mset (concat yss)"
proof -
  assume a: "mset xss = mset yss"
  have "mset (concat zss) = sum_mset (image_mset mset (mset zss))" for zss :: "'a list list"
    by (induction zss) simp_all
  with a show ?thesis
    by simp
qed

lemma length_sort_desc [simp]: "length (sort_desc key xs) = length xs"
  by (simp add: sort_desc_def)

lemma set_sort_desc [simp]: "set (sort_desc key xs) = set xs"
  by (simp add: sort_desc_def)

lemma traverse_nth_checked_total:
  "\<forall>p \<in> set ps. p < length xs \<Longrightarrow> traverse (nth_checked xs) ps = Inr (map (\<lambda>p. xs ! p) ps)"
  by (rule traverse_total) (simp add: nth_checked_def)

lemma ranked_lists_total:
  assumes "\<forall>c \<in> set cs. length c = length query"
  shows "ranked_lists cs query n_probe =
           Inr (py_slice 0 (resolve_n_probe n_probe cs)
                  (sort_desc (\<lambda>idx. map (cos_sim query) cs ! idx) [0 ..< length cs]))"
proof -
  have "traverse (cosine_similarity query) cs = Inr (map (cos_sim query) cs)"
    using assms by (intro traverse_total) (simp add: cosine_similarity_total)
  then show ?thesis
    by (simp add: ranked_lists_def)
qed

lemma ivf_search_probed:
  assumes tr: "ivf_trained s" and q: "int (length query) = dimension s"
    and r: "ranked_lists (centroids s) query n_probe = Inr ranked"
    and lt: "\<forall>p \<in> set ranked. p < length (ivf_lists s)"
  shows "IVF_search s query k n_probe =
           Inr (py_slice 0 k (sort_desc fst
                  (map (scored query) (concat (map (\<lambda>p. ivf_lists s ! p) ranked)))))"
proof -
  note t = ivf_trainedD [OF tr]
  let ?cands = "concat (map (\<lambda>p. ivf_lists s ! p) ranked)"
  have p: "traverse (nth_checked (ivf_lists s)) ranked = Inr (map (\<lambda>p. ivf_lists s ! p) ranked)"
    using lt by (rule traverse_nth_checked_total)
  have "length (vector item) = length query" if "item \<in> set ?cands" for item
  proof -
    from that obtain p where "p \<in> set ranked" "item \<in> set (ivf_lists s ! p)"
      by auto
    with lt t(4) q show ?thesis
      by fastforce
  qed
  then have sc: "score_all query ?cands = Inr (map (scored query) ?cands)"
    by (rule score_all_total)
  show ?thesis
    using q t(1) r p sc by (simp add: IVF_search_def)
qed

lemma ivf_full_probe:
  assumes tr: "ivf_trained s" and q: "int (length query) = dimension s" and k: "0 \<le> k"
    and np: "n_probe = int (length (centroids s))"
    and all: "mset its = mset (concat (ivf_lists s))"
  shows "\<exists>res. IVF_search s query k (Some n_probe) = Inr res \<and>
           map fst res = map fst (exact_top_k query k its) \<and>
           mset res \<subseteq># mset (map (scored query) its) \<and>
           (distinct (map fst (map (scored query) its)) \<longrightarrow> res = exact_top_k query k its)"
proof -
  note t = ivf_trainedD [OF tr]
  let ?n = "length (centroids s)"
  let ?ranked = "sort_desc (\<lambda>idx. map (cos_sim query) (centroids s) ! idx) [0 ..< ?n]"
  let ?cands = "concat (map (\<lambda>p. ivf_lists s ! p) ?ranked)"
  let ?all = "map (scored query) its"
  let ?res = "take (nat k) (sort_desc fst (map (scored query) ?cands))"
  have "np_pos": "n_probe \<noteq> 0"
    using np t(1) by simp
  have "\<forall>c \<in> set (centroids s). length c = length query"
    using t(3) q by auto
  from ranked_lists_total [OF this, of "Some n_probe"]
  have r: "ranked_lists (centroids s) query (Some n_probe) = Inr ?ranked"
    using np np_pos by (simp add: resolve_n_probe_def py_slice_prefix)
  have perm: "mset ?ranked = mset [0 ..< length (ivf_lists s)]"
    using t(2) by (simp del: mset_upt)
  then have lt: "\<forall>p \<in> set ?ranked. p < length (ivf_lists s)"
    by (metis atLeastLessThan_iff mset_eq_setD set_upt)
  have res: "IVF_search s query k (Some n_probe) = Inr ?res"
    using ivf_search_probed [OF tr q r lt, of k] k by (simp add: py_slice_prefix)
  have "mset (map (\<lambda>p. ivf_lists s ! p) ?ranked) = mset (ivf_lists s)"
    using perm by (rule map_nth_mset)
  then have "mset ?cands = mset (concat (ivf_lists s))"
    by (rule mset_concat_cong)
  with all have "mset ?cands = mset its"
    by simp
  then have mm: "mset (map (scored query) ?cands) = mset ?all"
    by (metis mset_map)
  have "map fst ?res = take (nat k) (map fst (sort_desc fst (map (scored query) ?cands)))"
    by (simp add: take_map)
  also have "\<dots> = take (nat k) (map fst (sort_desc fst ?all))"
    using sort_desc_keys_mset [OF mm, of fst] by simp
  finally have keys: "map fst ?res = map fst (exact_top_k query k its)"
    by (simp add: exact_top_k_def take_map)
  have sub: "mset ?res \<subseteq># mset ?all"
    using mset_take_subseteq [of "nat k" "sort_desc fst (map (scored query) ?cands)"] mm
    by simp
  have eq: "?res = exact_top_k query k its" if "distinct (map fst ?all)"
    using sort_desc_distinct_mset [OF mm [symmetric] that] by (simp add: exact_top_k_def)
  show ?thesis
  proof (intro exI conjI impI)
    show "IVF_search s query k (Some n_probe) = Inr ?res" by (rule res)
    show "map fst ?res = map fst (exact_top_k query k its)" by (rule keys)
    show "mset ?res \<subseteq># mset ?all" by (rule sub)
    show "?res = exact_top_k query k its" if "distinct (map fst ?all)"
      using that by (rule eq)
  qed
qed

lemma resolve_n_probe_zero: "resolve_n_probe (Some 0) cs = resolve_n_probe None cs"
  by (simp add: resolve_n_probe_def)

lemma ranked_lists_zero_probe: "ranked_lists cs query (Some 0) = ranked_lists cs query None"
  by (cases "traverse (cosine_similarity query) cs")
    (simp_all add: ranked_lists_def resolve_n_probe_zero)

lemma IVF_search_zero_probe: "IVF_search s query k (Some 0) = IVF_search s query k None"
  by (simp add: IVF_search_def ranked_lists_zero_probe)

lemma ranked_lists_default_length:
  assumes tr: "ivf_trained s" and q: "int (length query) = dimension s"
  shows "\<exists>ranked. ranked_lists (centroids s) query (Some 0) = Inr ranked \<and>
           length ranked = min 2 (length (centroids s)) \<and>
           (\<forall>p \<in> set ranked. p < length (ivf_lists s))"
proof -
  note t = ivf_trainedD [OF tr]
  let ?n = "length (centroids s)"
  let ?sorted = "sort_desc (\<lambda>idx. map (cos_sim query) (centroids s) ! idx) [0 ..< ?n]"
  have "\<forall>c \<in> set (centroids s). length c = length query"
    using t(3) q by auto
  from ranked_lists_total [OF this, of "Some 0"]
  have r: "ranked_lists (centroids s) query (Some 0) = Inr (take (min 2 ?n) ?sorted)"
    by (simp add: resolve_n_probe_def py_slice_prefix min_def)
  have "set ?sorted = {0 ..< ?n}"
    by simp
  then have "\<forall>p \<in> set (take (min 2 ?n) ?sorted). p < length (ivf_lists s)"
    using t(2) by (auto dest!: in_set_takeD)
  moreover have "length (take (min 2 ?n) ?sorted) = min 2 ?n"
    by simp
  ultimately show ?thesis
    using r by blast
qed

subsection \<open>Running the Clustered Inverted Index example\<close>

lemma cos_sim_more_examples [simp]:
  "cos_sim [0, 1] [1, 0] = 0" "cos_sim [0, 1] [0, 1] = 1"
  "cos_sim [- 1, 0] [1, 0] = - 1" "cos_sim [- 1, 0] [0, 1] = 0"
  by (simp_all add: cos_sim_def)

lemma argmax_first_examples:
  "argmax_first [1, 0] = 0" "argmax_first [0, 1] = 1" "argmax_first [- 1, 0] = 1"
  by code_simp+

lemma assign_examples:
  "assign [[1, 0], [0, 1]] [1, 0] = Inr 0"
  "assign [[1, 0], [0, 1]] [0, 1] = Inr 1"
  "assign [[1, 0], [0, 1]] [- 1, 0] = Inr 1"
  by (simp_all add: assign_total(1) argmax_first_examples)

lemma fresh_initialise:
  "initialise_centroids rot_random fresh_ivf [[1, 0], [0, 1]] = Inr trained_ivf"
  by code_simp

lemma unit_assign_all:
  "assign_all [[1, 0], [0, 1]] [[1, 0], [0, 1]] (replicate (length [[1, 0 :: real], [0, 1]]) []) =
     Inr [[[1, 0]], [[0, 1]]]"
  by (simp add: assign_examples append_at_def)

lemma unit_update_centroids:
  "update_centroids 2 0 [[[1, 0]], [[0, 1]]] [[1, 0], [0, 1]] = Inr [[1, 0], [0, 1]]"
  by code_simp

lemma unit_fit_rounds:
  "fit_rounds (Suc 0) 2 [[1, 0], [0, 1]] [[1, 0], [0, 1]] = Inr [[1, 0], [0, 1]]"
  by (simp only: fit_rounds.simps unit_assign_all unit_update_centroids sum.case)

lemma fresh_fit: "fit rot_random fresh_ivf [[1, 0], [0, 1]] = Inr trained_ivf"
proof -
  have "fit_rounds (nat (iterations fresh_ivf)) (dimension fresh_ivf) [[1, 0], [0, 1]]
          (centroids trained_ivf) = Inr [[1, 0], [0, 1]]"
    using unit_fit_rounds by (simp add: fresh_ivf_def trained_ivf_def)
  moreover have "\<not> int (length [[1, 0 :: real], [0, 1]]) < n_lists fresh_ivf"
    "\<not> (\<exists>v \<in> set [[1, 0 :: real], [0, 1]]. int (length v) \<noteq> dimension fresh_ivf)"
    by (simp_all add: fresh_ivf_def)
  ultimately show ?thesis
    by (simp add: fit_def fresh_initialise) (simp add: trained_ivf_def)
qed

lemma trained_add: "IVF_add trained_ivf [item_a, item_b, item_c] = (None, filled_ivf)"
proof -
  have c: "centroids trained_ivf = [[1, 0], [0, 1]]" "dimension trained_ivf = 2"
    "ivf_lists trained_ivf = [[], []]"
    by (simp_all add: trained_ivf_def)
  show ?thesis
    by (simp add: IVF_add_def c assign_examples append_at_def item_a_def item_b_def item_c_def
        filled_ivf_def)
qed

lemma trained_add_one:
  "IVF_add trained_ivf [item_a] = (None, trained_ivf\<lparr>ivf_lists := [[item_a], []]\<rparr>)"
proof -
  have c: "centroids trained_ivf = [[1, 0], [0, 1]]" "dimension trained_ivf = 2"
    "ivf_lists trained_ivf = [[], []]"
    by (simp_all add: trained_ivf_def)
  show ?thesis
    by (simp add: IVF_add_def c assign_examples append_at_def item_a_def)
qed

lemma exact_top_k_example_abc:
  "exact_top_k [1, 0] 2 [item_a, item_b, item_c] =
     [(1, [(''text'', ''a'')]), (0, [(''text'', ''b'')])]"
  by (simp add: exact_top_k_def scored_def sort_desc_def item_a_def item_b_def item_c_def)

lemma distinct_scores_example_abc:
  "distinct (map fst (map (scored [1, 0]) [item_a, item_b, item_c]))"
  by (simp add: scored_def item_a_def item_b_def item_c_def)

lemma IVF_add_trained: "ivf_trained s \<Longrightarrow> IVF_add s its = IVF_add_loop s its"
  using ivf_trainedD(1) [of s] by (simp add: IVF_add_def)

lemma trained_ivf_trained: "ivf_trained trained_ivf"
  by (rule fit_trained [OF fresh_fit]) (simp add: fresh_ivf_def)

lemma filled_ivf_trained: "ivf_trained filled_ivf"
  using IVF_add_loop_trained [OF trained_ivf_trained, of "[item_a, item_b, item_c]"] trained_add
  by (simp add: IVF_add_trained [OF trained_ivf_trained])

lemma filled_search_full:
  "IVF_search filled_ivf [1, 0] 2 (Some 2) =
     Inr [(1, [(''text'', ''a'')]), (0, [(''text'', ''b'')])]"
proof -
  have "int (length [1, 0 :: real]) = dimension filled_ivf" "(0 :: int) \<le> 2"
    "2 = int (length (centroids filled_ivf))"
    "mset [item_a, item_b, item_c] = mset (concat (ivf_lists filled_ivf))"
    by (simp_all add: filled_ivf_def trained_ivf_def)
  from ivf_full_probe [OF filled_ivf_trained this] distinct_scores_example_abc
  show ?thesis
    by (auto simp: exact_top_k_example_abc)
qed

lemma filled_search_default:
  "IVF_search filled_ivf [1, 0] 2 None =
     Inr [(1, [(''text'', ''a'')]), (0, [(''text'', ''b'')])]"
proof -
  have "resolve_n_probe None (centroids filled_ivf) = resolve_n_probe (Some 2) (centroids filled_ivf)"
    by (simp add: resolve_n_probe_def filled_ivf_def trained_ivf_def)
  then have "ranked_lists (centroids filled_ivf) [1, 0] None =
      ranked_lists (centroids filled_ivf) [1, 0] (Some 2)"
    by (cases "traverse (cosine_similarity [1, 0]) (centroids filled_ivf)")
      (simp_all add: ranked_lists_def)
  then have "IVF_search filled_ivf [1, 0] 2 None = IVF_search filled_ivf [1, 0] 2 (Some 2)"
    by (simp add: IVF_search_def)
  then show ?thesis
    by (simp add: filled_search_full)
qed

lemma IVF_add_single:
  assumes tr: "ivf_trained s" and dim: "int (length (vector item)) = dimension s"
  shows "\<exists>b < length (centroids s).
           assign (centroids s) (vector item) = Inr b \<and>
           (\<forall>j < length (centroids s).
              cos_sim (vector item) (centroids s ! j) \<le> cos_sim (vector item) (centroids s ! b)) \<and>
           IVF_add s [item] =
             (None, s\<lparr>ivf_lists := (ivf_lists s)[b := ivf_lists s ! b @ [item]]\<rparr>)"
proof -
  from IVF_add_loop_step [OF tr dim, of "[]"] obtain b where
    "b < length (ivf_lists s)" "assign (centroids s) (vector item) = Inr b"
    "\<forall>j < length (centroids s).
        cos_sim (vector item) (centroids s ! j) \<le> cos_sim (vector item) (centroids s ! b)"
    "IVF_add_loop s [item] =
       IVF_add_loop (s\<lparr>ivf_lists := (ivf_lists s)[b := ivf_lists s ! b @ [item]]\<rparr>) []"
    by blast
  then show ?thesis
    using ivf_trainedD(2) [OF tr] by (auto simp: IVF_add_trained [OF tr])
qed

lemma filled_run: "ivf_run trained_ivf [Add [item_a, item_b, item_c], Search [1, 0] 2 None] = filled_ivf"
  by (simp add: ivf_run_def trained_add)

subsection \<open>The top-up loop\<close>

lemma top_up_first_unseen:
  assumes "\<exists>item \<in> set xs. obj_id item \<notin> seen" and "ef0 \<le> int (length cands) + 1"
  shows "length (top_up ef0 seen xs cands) = length cands + 1"
  using assms
proof (induction xs)
  case Nil
  then show ?case by simp
next
  case (Cons item rest)
  show ?case
  proof (cases "obj_id item \<in> seen")
    case True
    with Cons.prems(1) have "\<exists>item \<in> set rest. obj_id item \<notin> seen"
      by auto
    from Cons.IH [OF this Cons.prems(2)] True show ?thesis
      by simp
  next
    case False
    with Cons.prems(2) show ?thesis
      by (simp add: Let_def)
  qed
qed

lemma HNSW_candidates_small_ef:
  assumes R: "valid_sample R" and ef1: "1 \<le> ef s" and small: "ef s < int (length (items s))"
    and ids: "distinct (map obj_id (items s))"
  shows "length (fst (HNSW_candidates R s)) = nat (ef s) + 1"
proof -
  let ?n = "length (items s)"
  let ?k = "nat (ef s)"
  let ?ps = "fst (sample_op R (hnsw_rng s) ?n ?k)"
  let ?cands = "map (\<lambda>p. items s ! p) ?ps"
  let ?seen = "obj_id ` set ?cands"
  have k: "nat (min (int ?n) (ef s)) = ?k" and kn: "?k < ?n"
    using small ef1 by simp_all
  then have "?k \<le> ?n"
    by simp
  then have len: "length ?ps = ?k"
    by (rule valid_sampleD(1) [OF R])
  have "card ?seen \<le> ?k"
    using card_image_le [of "set ?cands" obj_id] card_length [of ?cands] len by simp
  moreover have "card (obj_id ` set (items s)) = ?n"
    using ids by (metis distinct_card length_map set_map)
  ultimately have "\<not> obj_id ` set (items s) \<subseteq> ?seen"
    using kn card_mono [of ?seen "obj_id ` set (items s)"] by auto
  then have unseen: "\<exists>item \<in> set (items s). obj_id item \<notin> ?seen"
    by blast
  have bound: "ef s \<le> int (length ?cands) + 1"
    using len ef1 by simp
  have "fst (HNSW_candidates R s) = top_up (ef s) ?seen (items s) ?cands"
    unfolding HNSW_candidates_def Let_def k split_def using len kn by simp
  then show ?thesis
    using top_up_first_unseen [OF unseen bound] len by simp
qed

section \<open>Claims\<close>

text \<open>
  C1. Sampled Flat Index: when \<open>ef\<close> is at least the number of stored items, \<^verbatim>\<open>search\<close>
  returns the exact top \<open>k\<close> by cosine similarity, whatever the construction seed. For
  every store \<open>its\<close> added to a fresh index, every query of the configured dimension and
  every \<open>k \<ge> 0\<close>, the indexes built with two seeds both return a result whose score
  sequence is that of the exhaustive scan \<open>exact_top_k\<close>, whose entries are scored stored
  items, and which is the exhaustive scan's result itself when no two stored items tie.
\<close>

theorem hnsw_exact_when_ef_covers_store:
  assumes "valid_sample R"
    and "HNSWIndex_init R d ef0 seed = Inr s0" and "HNSW_add s0 its = (None, s)"
    and "HNSWIndex_init R d ef0 seed' = Inr s0'" and "HNSW_add s0' its = (None, s')"
    and "int (length its) \<le> ef0" and "int (length query) = d" and "0 \<le> k"
  shows "\<exists>res res'.
           fst (HNSW_search R s query k) = Inr res \<and>
           fst (HNSW_search R s' query k) = Inr res' \<and>
           map fst res = map fst (exact_top_k query k its) \<and>
           map fst res' = map fst (exact_top_k query k its) \<and>
           mset res \<subseteq># mset (map (scored query) its) \<and>
           mset res' \<subseteq># mset (map (scored query) its) \<and>
           (distinct (map fst (map (scored query) its)) \<longrightarrow>
              res = exact_top_k query k its \<and> res' = exact_top_k query k its)"
proof -
  note b = HNSW_built [OF assms(2,3)] and b' = HNSW_built [OF assms(4,5)]
  have "\<exists>res. fst (HNSW_search R s query k) = Inr res \<and>
           map fst res = map fst (exact_top_k query k (items s)) \<and>
           mset res \<subseteq># mset (map (scored query) (items s)) \<and>
           (distinct (map fst (map (scored query) (items s))) \<longrightarrow>
              res = exact_top_k query k (items s))"
    using assms(6,7) b by (intro hnsw_full_scan [OF assms(1) _ _ _ assms(8)]) simp_all
  moreover have "\<exists>res. fst (HNSW_search R s' query k) = Inr res \<and>
           map fst res = map fst (exact_top_k query k (items s')) \<and>
           mset res \<subseteq># mset (map (scored query) (items s')) \<and>
           (distinct (map fst (map (scored query) (items s'))) \<longrightarrow>
              res = exact_top_k query k (items s'))"
    using assms(6,7) b' by (intro hnsw_full_scan [OF assms(1) _ _ _ assms(8)]) simp_all
  ultimately show ?thesis
    unfolding b(1) b'(1) by blast
qed

theorem hnsw_exact_when_ef_covers_store_witness:
  "fst (HNSW_search rot_random (wide_ef_index 1) [1, 0] 2) =
     Inr [(1, [(''text'', ''a'')]), (0, [(''text'', ''b'')])] \<and>
   fst (HNSW_search rot_random (wide_ef_index 2) [1, 0] 2) =
     Inr [(1, [(''text'', ''a'')]), (0, [(''text'', ''b'')])]"
proof -
  have "int (length [item_b, item_c, item_a]) \<le> 10" "int (length [1, 0 :: real]) = 2"
    "(0 :: int) \<le> 2"
    by simp_all
  from hnsw_exact_when_ef_covers_store [OF rot_random_valid_sample
      wide_ef_built [of 1] wide_ef_built [of 2] this]
    distinct_scores_example
  show ?thesis
    by (auto simp: exact_top_k_example)
qed

text \<open>
  C9 (amended). Sampled Flat Index whose \<open>ef\<close> is at least the number of stored items: two
  consecutive searches with the same query of the configured dimension and the same
  \<open>k \<ge> 0\<close>, with no \<^verbatim>\<open>add\<close> in between, both succeed, leave the store as it is, return
  the same sequence of scores, and return identical lists when no two stored items have
  the same score.
\<close>

theorem hnsw_repeated_search_when_ef_covers_store:
  assumes "valid_sample R"
    and "HNSWIndex_init R d ef0 seed = Inr s0" and "HNSW_add s0 its = (None, s)"
    and "int (length its) \<le> ef0" and "int (length query) = d" and "0 \<le> k"
  shows "\<exists>res1 res2.
           fst (HNSW_search R s query k) = Inr res1 \<and>
           fst (HNSW_search R (snd (HNSW_search R s query k)) query k) = Inr res2 \<and>
           items (snd (HNSW_search R s query k)) = its \<and>
           map fst res1 = map fst res2 \<and>
           (distinct (map fst (map (scored query) its)) \<longrightarrow> res1 = res2)"
proof -
  let ?s1 = "snd (HNSW_search R s query k)"
  note b = HNSW_built [OF assms(2,3)]
  note keep = HNSW_search_keeps [of R s query k]
  have 1: "\<exists>res. fst (HNSW_search R s query k) = Inr res \<and>
           map fst res = map fst (exact_top_k query k (items s)) \<and>
           mset res \<subseteq># mset (map (scored query) (items s)) \<and>
           (distinct (map fst (map (scored query) (items s))) \<longrightarrow>
              res = exact_top_k query k (items s))"
    using assms(4,5) b by (intro hnsw_full_scan [OF assms(1) _ _ _ assms(6)]) simp_all
  have 2: "\<exists>res. fst (HNSW_search R ?s1 query k) = Inr res \<and>
           map fst res = map fst (exact_top_k query k (items ?s1)) \<and>
           mset res \<subseteq># mset (map (scored query) (items ?s1)) \<and>
           (distinct (map fst (map (scored query) (items ?s1))) \<longrightarrow>
              res = exact_top_k query k (items ?s1))"
    using assms(4,5) b keep by (intro hnsw_full_scan [OF assms(1) _ _ _ assms(6)]) simp_all
  have "items ?s1 = its"
    using keep b(1) by simp
  with 1 2 show ?thesis
    unfolding b(1) by (metis (no_types, lifting))
qed

theorem hnsw_repeated_search_when_ef_covers_store_witness:
  "fst (HNSW_search rot_random (wide_ef_index 1) [1, 0] 2) =
     Inr [(1, [(''text'', ''a'')]), (0, [(''text'', ''b'')])] \<and>
   fst (HNSW_search rot_random (snd (HNSW_search rot_random (wide_ef_index 1) [1, 0] 2))
          [1, 0] 2) =
     Inr [(1, [(''text'', ''a'')]), (0, [(''text'', ''b'')])] \<and>
   items (snd (HNSW_search rot_random (wide_ef_index 1) [1, 0] 2)) =
     [item_b, item_c, item_a]"
proof -
  have "int (length [item_b, item_c, item_a]) \<le> 10" "int (length [1, 0 :: real]) = 2"
    "(0 :: int) \<le> 2"
    by simp_all
  from hnsw_repeated_search_when_ef_covers_store [OF rot_random_valid_sample
      wide_ef_built [of 1] this]
    distinct_scores_example wide_ef_search [of 1]
  show ?thesis
    by auto
qed

text \<open>
  C9 as stated does not hold: every \<^verbatim>\<open>search\<close> draws a fresh sample and so advances the
  generator. Under \<open>rot_random\<close>, the index built with seed 1 and \<open>ef = 1\<close> over three
  items answers the same query first with item b, then with item a; and the index whose
  \<open>ef\<close> covers its two items of equal score answers first with a, then with a2.
\<close>

theorem hnsw_repeated_search_differs:
  "HNSWIndex_init rot_random 2 1 (Some 1) = Inr (small_ef_index\<lparr>items := []\<rparr>) \<and>
   HNSW_add (small_ef_index\<lparr>items := []\<rparr>) [item_b, item_c, item_a] = (None, small_ef_index) \<and>
   fst (HNSW_search rot_random small_ef_index [1, 0] 1) = Inr [(0, [(''text'', ''b'')])] \<and>
   fst (HNSW_search rot_random (snd (HNSW_search rot_random small_ef_index [1, 0] 1)) [1, 0] 1) =
     Inr [(1, [(''text'', ''a'')])] \<and>
   HNSWIndex_init rot_random 2 10 (Some 0) = Inr (tied_index\<lparr>items := []\<rparr>) \<and>
   HNSW_add (tied_index\<lparr>items := []\<rparr>) [item_a, item_a2] = (None, tied_index) \<and>
   fst (HNSW_search rot_random tied_index [1, 0] 1) = Inr [(1, [(''text'', ''a'')])] \<and>
   fst (HNSW_search rot_random (snd (HNSW_search rot_random tied_index [1, 0] 1)) [1, 0] 1) =
     Inr [(1, [(''text'', ''a2'')])]"
proof (intro conjI)
  show "fst (HNSW_search rot_random
               (snd (HNSW_search rot_random small_ef_index [1, 0] 1)) [1, 0] 1) =
          Inr [(1, [(''text'', ''a'')])]"
    by (simp only: small_ef_search_1 small_ef_search_2 fst_conv snd_conv)
  show "fst (HNSW_search rot_random (snd (HNSW_search rot_random tied_index [1, 0] 1)) [1, 0] 1) =
          Inr [(1, [(''text'', ''a2'')])]"
    by (simp only: tied_search_1 tied_search_2 fst_conv snd_conv)
qed (simp_all only: small_ef_built tied_built small_ef_search_1 tied_search_1 fst_conv)

text \<open>
  C4 (size of the candidate set). With \<open>ef = 1\<close> and three stored items of distinct
  identity, the sample has \<open>min 3 1 = 1\<close> element; it is smaller than the store, so the
  top-up loop runs, appends the first unsampled item and only then tests the bound:
  \<^verbatim>\<open>search\<close> scores two candidates. Lemma \<open>HNSW_candidates_small_ef\<close> shows the same
  for every sampler and every store of distinct objects larger than \<open>ef\<close>: the candidates
  number \<open>ef + 1\<close>.
\<close>

theorem hnsw_small_ef_scores_extra_candidate:
  "fst (HNSW_candidates rot_random small_ef_index) = [item_c, item_b] \<and>
   length (fst (HNSW_candidates rot_random small_ef_index)) = 2 \<and>
   min (length (items small_ef_index)) (nat (ef small_ef_index)) = 1"
  by (simp add: small_ef_candidates_1) (simp add: small_ef_index_def)

text \<open>
  C3 (amended). Of the bad construction parameters, only a non-positive \<open>n_lists\<close> makes
  construction fail, with InvalidConfig. A Clustered Inverted Index with positive
  \<open>n_lists\<close> and a Sampled Flat Index are constructed whatever the dimension; \<open>iterations\<close>
  and \<open>ef\<close> below 1 are raised to 1.
\<close>

theorem index_construction_errors:
  "(n_lists0 \<le> 0 \<longrightarrow> IVFIndex_init R d n_lists0 it seed = Inl InvalidConfig) \<and>
   (0 < n_lists0 \<longrightarrow>
      IVFIndex_init R d n_lists0 it seed =
        Inr \<lparr>dimension = d, n_lists = n_lists0, iterations = max it 1,
             ivf_rng = seed_op R seed, centroids = [], ivf_lists = []\<rparr>) \<and>
   HNSWIndex_init R d ef0 seed' =
     Inr \<lparr>dimension = d, ef = max ef0 1, hnsw_rng = seed_op R seed', items = []\<rparr>"
  by (simp add: IVFIndex_init_def HNSWIndex_init_def)

theorem index_construction_errors_witness:
  "IVFIndex_init rot_random 3 0 5 (Some 7) = Inl InvalidConfig \<and>
   IVFIndex_init rot_random 0 4 0 (Some 7) =
     Inr \<lparr>dimension = 0, n_lists = 4, iterations = 1,
          ivf_rng = 7, centroids = [], ivf_lists = []\<rparr> \<and>
   HNSWIndex_init rot_random (- 2) 0 (Some 7) =
     Inr \<lparr>dimension = - 2, ef = 1, hnsw_rng = 7, items = []\<rparr>"
  using index_construction_errors [of 0 rot_random 3 5 "Some 7" 0 "Some 7"]
    index_construction_errors [of 4 rot_random 0 0 "Some 7" 0 "Some 7"]
    index_construction_errors [of 4 rot_random "- 2" 0 "Some 7" 0 "Some 7"]
  by (simp add: rot_random_def)

text \<open>
  C3 as stated does not hold: a Sampled Flat Index with dimension -2 and \<open>ef = 0\<close>, and a
  Clustered Inverted Index with dimension 0 and \<open>iterations = 0\<close>, are both constructed.
\<close>

theorem index_construction_accepts_bad_parameters:
  "\<not> isl (HNSWIndex_init rot_random (- 2) 0 (Some 7)) \<and>
   \<not> isl (IVFIndex_init rot_random 0 4 0 (Some 7))"
  by (simp add: IVFIndex_init_def HNSWIndex_init_def)

text \<open>
  C6. On a Clustered Inverted Index without centroids, \<^verbatim>\<open>add\<close> fails with NotTrained
  for every batch and leaves the index as it is, while \<^verbatim>\<open>search\<close> with a query of the
  configured dimension returns the empty list, for every \<open>k\<close> and \<open>n_probe\<close>.
\<close>

theorem ivf_untrained_add_fails_search_empty:
  "centroids s = [] \<Longrightarrow>
     IVF_add s its = (Some NotTrained, s) \<and>
     (int (length query) = dimension s \<longrightarrow> IVF_search s query k n_probe = Inr [])"
  by (simp add: IVF_add_def IVF_search_def)

theorem ivf_untrained_add_fails_search_empty_witness:
  "IVFIndex_init rot_random 2 2 1 (Some 0) = Inr fresh_ivf \<and>
   IVF_add fresh_ivf [item_a] = (Some NotTrained, fresh_ivf) \<and>
   IVF_search fresh_ivf [1, 0] 5 None = Inr []"
proof -
  have "centroids fresh_ivf = []"
    by (simp add: fresh_ivf_def)
  from ivf_untrained_add_fails_search_empty [OF this, of "[item_a]" "[1, 0]" 5 None]
  show ?thesis
    by (simp add: fresh_ivf_def IVFIndex_init_def rot_random_def)
qed

text \<open>
  C2. For a model constructed with dimension \<open>d\<close>, \<^verbatim>\<open>embed\<close> returns on every text, with no
  exception and in particular no division by zero, a vector of length \<open>d\<close>. The
  accumulated feature vector is all-zero exactly when no n-gram was extracted; the result
  is then the zero vector of length \<open>d\<close>, and otherwise a vector of L2 norm 1 (floats
  being exact reals here, the norm is exactly 1).
\<close>

theorem embed_unit_norm_or_zero:
  assumes "LocalEmbeddingModel_init d rng = Inr m"
  shows "\<exists>acc v.
           features hash lower m text = Inr acc \<and>
           embed hash lower m text = Inr v \<and>
           length v = nat d \<and> 0 < d \<and>
           (acc = zero_vector d \<longleftrightarrow> generate_ngrams lower m text = []) \<and>
           (if acc = zero_vector d then v = zero_vector d else l2_norm v = 1)"
proof -
  from assms have d: "0 < d" and m: "em_dimension m = d"
    by (auto simp: LocalEmbeddingModel_init_def split: if_splits)
  from features_total [of m hash lower "text"] d m
  obtain acc where acc: "features hash lower m text = Inr acc" "length acc = nat d"
      "acc = zero_vector d \<longleftrightarrow> generate_ngrams lower m text = []"
    by auto
  show ?thesis
  proof (cases "acc = zero_vector d")
    case True
    then have "l2_norm acc = 0"
      by (simp add: l2_norm_zero_iff zero_vector_def)
    then have "embed hash lower m text = Inr acc"
      using acc(1) by (simp add: embed_def normalise_zero)
    then show ?thesis
      using acc d True by auto
  next
    case False
    then have nz: "l2_norm acc \<noteq> 0"
      using acc(2) by (simp add: l2_norm_zero_iff zero_vector_iff)
    let ?v = "map (\<lambda>value. value / l2_norm acc) acc"
    have "embed hash lower m text = Inr ?v"
      using acc(1) normalise_nonzero(1) [OF nz] by (simp add: embed_def)
    moreover have "l2_norm ?v = 1"
      by (rule normalise_nonzero(2) [OF nz])
    ultimately show ?thesis
      using acc d False by auto
  qed
qed

theorem embed_unit_norm_or_zero_witness:
  "LocalEmbeddingModel_init 2 (1, 1) = Inr unigram_model \<and>
   (\<exists>v. embed length_hash (\<lambda>t. t) unigram_model ''ab'' = Inr v \<and> length v = 2 \<and> l2_norm v = 1) \<and>
   embed length_hash (\<lambda>t. t) unigram_model [] = Inr [0, 0]"
proof -
  have init: "LocalEmbeddingModel_init 2 (1, 1) = Inr unigram_model"
    by (simp add: LocalEmbeddingModel_init_def unigram_model_def)
  have nz: "[0, 2] \<noteq> zero_vector 2"
    by (simp add: zero_vector_def numeral_2_eq_2)
  have z: "zero_vector 2 = [0, 0]"
    by (simp add: zero_vector_def numeral_2_eq_2)
  from embed_unit_norm_or_zero [OF init, of length_hash "\<lambda>t. t" "''ab''"]
    embed_unit_norm_or_zero [OF init, of length_hash "\<lambda>t. t" "[]"]
  show ?thesis
    using init nz z by (auto simp: unigram_features)
qed

text \<open>
  C5. Clustered Inverted Index: after a successful \<^verbatim>\<open>fit\<close> on a constructed index and a
  successful \<^verbatim>\<open>add\<close> of the items \<open>its\<close>, \<^verbatim>\<open>search\<close> with \<open>n_probe = n_lists\<close>, a query
  of the configured dimension and \<open>k \<ge> 0\<close> probes every list: it returns a result whose
  score sequence is that of the exhaustive scan \<open>exact_top_k\<close> over \<open>its\<close>, whose entries
  are scored items of \<open>its\<close>, and which is the exhaustive scan's result itself when no two
  items tie.
\<close>

theorem ivf_full_probe_is_exhaustive:
  assumes "IVFIndex_init R d nl it seed = Inr s0" and "fit R s0 data = Inr s1"
    and "IVF_add s1 its = (None, s2)" and "int (length query) = d" and "0 \<le> k"
  shows "\<exists>res. IVF_search s2 query k (Some nl) = Inr res \<and>
           map fst res = map fst (exact_top_k query k its) \<and>
           mset res \<subseteq># mset (map (scored query) its) \<and>
           (distinct (map fst (map (scored query) its)) \<longrightarrow> res = exact_top_k query k its)"
proof -
  from assms(1) have s0: "0 < n_lists s0" "n_lists s0 = nl" "dimension s0 = d"
    by (auto simp: IVFIndex_init_def split: if_splits)
  note shape = fit_shape [OF assms(2) s0(1)]
  have tr1: "ivf_trained s1"
    by (rule fit_trained [OF assms(2) s0(1)])
  have loop: "IVF_add_loop s1 its = (None, s2)"
    using assms(3) by (simp add: IVF_add_trained [OF tr1])
  have "\<forall>it \<in> set its. int (length (vector it)) = dimension s1"
    by (rule IVF_add_loop_None_dims [OF tr1 loop])
  from IVF_add_loop_valid [OF tr1 this] loop
  have tr2: "ivf_trained s2"
    and m: "mset (concat (ivf_lists s2)) = mset (concat (ivf_lists s1)) + mset its"
    by simp_all
  have fixed: "centroids s2 = centroids s1" "dimension s2 = dimension s1"
    using IVF_add_loop_fixed [of s1 its] loop by simp_all
  have "int (length query) = dimension s2"
    using assms(4) fixed(2) shape(3) s0(3) by simp
  moreover have "nl = int (length (centroids s2))"
    using fixed(1) shape(1) s0(1,2) by simp
  moreover have "mset its = mset (concat (ivf_lists s2))"
    using m shape(2) by simp
  ultimately show ?thesis
    by (intro ivf_full_probe [OF tr2 _ assms(5)])
qed

theorem ivf_full_probe_is_exhaustive_witness:
  "IVFIndex_init rot_random 2 2 1 (Some 0) = Inr fresh_ivf \<and>
   fit rot_random fresh_ivf [[1, 0], [0, 1]] = Inr trained_ivf \<and>
   IVF_add trained_ivf [item_a, item_b, item_c] = (None, filled_ivf) \<and>
   IVF_search filled_ivf [1, 0] 2 (Some 2) =
     Inr [(1, [(''text'', ''a'')]), (0, [(''text'', ''b'')])]"
proof -
  have init: "IVFIndex_init rot_random 2 2 1 (Some 0) = Inr fresh_ivf"
    by (simp add: IVFIndex_init_def fresh_ivf_def rot_random_def)
  have "int (length [1, 0 :: real]) = 2" "(0 :: int) \<le> 2"
    by simp_all
  from ivf_full_probe_is_exhaustive [OF init fresh_fit trained_add this]
    distinct_scores_example_abc
  have "IVF_search filled_ivf [1, 0] 2 (Some 2) =
      Inr [(1, [(''text'', ''a'')]), (0, [(''text'', ''b'')])]"
    by (auto simp: exact_top_k_example_abc)
  with init fresh_fit trained_add show ?thesis
    by simp
qed

text \<open>
  C10. On a trained Clustered Inverted Index, \<^verbatim>\<open>search\<close> with \<open>n_probe = 0\<close> is
  \<^verbatim>\<open>search\<close> without \<open>n_probe\<close>: for a query of the configured dimension it probes
  \<open>min 2 n_lists\<close> lists, the best-scoring centroids first, and returns the first \<open>k\<close> of
  their items sorted by score.
\<close>

theorem ivf_n_probe_zero_is_default:
  assumes "0 < n_lists s0" and "fit R s0 data = Inr s1"
    and "int (length query) = dimension s1"
  shows "IVF_search (ivf_run s1 calls) query k (Some 0) =
           IVF_search (ivf_run s1 calls) query k None \<and>
         (\<exists>ranked.
            ranked_lists (centroids (ivf_run s1 calls)) query (Some 0) = Inr ranked \<and>
            length ranked = nat (min 2 (n_lists s0)) \<and>
            IVF_search (ivf_run s1 calls) query k (Some 0) =
              Inr (py_slice 0 k (sort_desc fst (map (scored query)
                     (concat (map (\<lambda>p. ivf_lists (ivf_run s1 calls) ! p) ranked))))))"
proof -
  let ?s = "ivf_run s1 calls"
  note shape = fit_shape [OF assms(2,1)]
  note run = ivf_run_trained [OF fit_trained [OF assms(2,1)], of calls]
  have tr: "ivf_trained ?s" and q: "int (length query) = dimension ?s"
    using run assms(3) by simp_all
  from ranked_lists_default_length [OF tr q] obtain ranked where
    r: "ranked_lists (centroids ?s) query (Some 0) = Inr ranked"
    and len: "length ranked = min 2 (length (centroids ?s))"
    and lt: "\<forall>p \<in> set ranked. p < length (ivf_lists ?s)"
    by blast
  have "length ranked = nat (min 2 (n_lists s0))"
    using len run shape(1) assms(1) by simp
  with r ivf_search_probed [OF tr q r lt, of k] IVF_search_zero_probe [of ?s query k]
  show ?thesis
    by blast
qed

theorem ivf_n_probe_zero_is_default_witness:
  "ivf_run trained_ivf [Add [item_a, item_b, item_c]] = filled_ivf \<and>
   IVF_search filled_ivf [1, 0] 2 (Some 0) =
     Inr [(1, [(''text'', ''a'')]), (0, [(''text'', ''b'')])] \<and>
   IVF_search filled_ivf [1, 0] 2 None =
     Inr [(1, [(''text'', ''a'')]), (0, [(''text'', ''b'')])]"
proof -
  have run: "ivf_run trained_ivf [Add [item_a, item_b, item_c]] = filled_ivf"
    by (simp add: ivf_run_def trained_add)
  have "0 < n_lists fresh_ivf" "int (length [1, 0 :: real]) = dimension trained_ivf"
    by (simp_all add: fresh_ivf_def trained_ivf_def)
  from ivf_n_probe_zero_is_default [OF this(1) fresh_fit this(2),
      of "[Add [item_a, item_b, item_c]]" 2]
  show ?thesis
    by (simp add: run filled_search_default)
qed

text \<open>
  C7. Clustered Inverted Index, from any state with positive \<open>n_lists\<close> (the constructor
  admits no other, and nothing reassigns it): a successful \<^verbatim>\<open>fit\<close> leaves exactly
  \<open>n_lists\<close> centroids and \<open>n_lists\<close> lists. After any sequence of \<^verbatim>\<open>add\<close> and \<^verbatim>\<open>search\<close>
  calls the centroids are those \<^verbatim>\<open>fit\<close> left, there are still \<open>n_lists\<close> lists, and every
  item of list \<open>i\<close> is one that \<^verbatim>\<open>_assign\<close> sends to centroid \<open>i\<close>. Adding one item of the
  configured dimension appends it to the list of a centroid of largest cosine similarity
  and changes nothing else.
\<close>

theorem ivf_centroids_fixed_after_fit:
  assumes "0 < n_lists s0" and "fit R s0 data = Inr s1"
  shows "length (centroids s1) = nat (n_lists s0) \<and>
         length (ivf_lists s1) = nat (n_lists s0) \<and>
         n_lists s1 = n_lists s0 \<and>
         centroids (ivf_run s1 calls) = centroids s1 \<and>
         length (ivf_lists (ivf_run s1 calls)) = nat (n_lists s0) \<and>
         n_lists (ivf_run s1 calls) = n_lists s0 \<and>
         (\<forall>i < nat (n_lists s0). \<forall>it \<in> set (ivf_lists (ivf_run s1 calls) ! i).
            assign (centroids s1) (vector it) = Inr i) \<and>
         (int (length (vector item)) = dimension s1 \<longrightarrow>
            (\<exists>b < nat (n_lists s0).
               assign (centroids s1) (vector item) = Inr b \<and>
               (\<forall>j < nat (n_lists s0).
                  cos_sim (vector item) (centroids s1 ! j)
                    \<le> cos_sim (vector item) (centroids s1 ! b)) \<and>
               IVF_add (ivf_run s1 calls) [item] =
                 (None, (ivf_run s1 calls)
                    \<lparr>ivf_lists := (ivf_lists (ivf_run s1 calls))
                       [b := ivf_lists (ivf_run s1 calls) ! b @ [item]]\<rparr>)))"
proof -
  let ?s = "ivf_run s1 calls"
  let ?n = "nat (n_lists s0)"
  note shape = fit_shape [OF assms(2,1)]
  note run = ivf_run_trained [OF fit_trained [OF assms(2,1)], of calls]
  have tr: "ivf_trained ?s" and cs: "centroids ?s = centroids s1"
    and d: "dimension ?s = dimension s1" and nl: "n_lists ?s = n_lists s1"
    using run by simp_all
  note t = ivf_trainedD [OF tr]
  have n: "length (centroids ?s) = ?n" "length (ivf_lists ?s) = ?n"
    using t(2) cs shape(1) by simp_all
  have paired: "\<forall>i < ?n. \<forall>it \<in> set (ivf_lists ?s ! i). assign (centroids s1) (vector it) = Inr i"
    using t(4) n(2) cs by simp
  have one: "\<exists>b < ?n.
       assign (centroids s1) (vector item) = Inr b \<and>
       (\<forall>j < ?n. cos_sim (vector item) (centroids s1 ! j)
                    \<le> cos_sim (vector item) (centroids s1 ! b)) \<and>
       IVF_add ?s [item] = (None, ?s\<lparr>ivf_lists := (ivf_lists ?s)[b := ivf_lists ?s ! b @ [item]]\<rparr>)"
    if "int (length (vector item)) = dimension s1"
    using IVF_add_single [OF tr, of item] that d cs n(1) by simp
  show ?thesis
    using shape(1,2,4) cs n(2) nl paired one by simp
qed

theorem ivf_centroids_fixed_after_fit_witness:
  "fit rot_random fresh_ivf [[1, 0], [0, 1]] = Inr trained_ivf \<and>
   length (centroids trained_ivf) = 2 \<and> length (ivf_lists trained_ivf) = 2 \<and>
   ivf_run trained_ivf [Add [item_a, item_b, item_c], Search [1, 0] 2 None] = filled_ivf \<and>
   centroids filled_ivf = centroids trained_ivf \<and> length (ivf_lists filled_ivf) = 2 \<and>
   IVF_add filled_ivf [item_c] =
     (None, filled_ivf\<lparr>ivf_lists := [[item_a], [item_b, item_c, item_c]]\<rparr>)"
proof -
  have pos: "0 < n_lists fresh_ivf" and n: "nat (n_lists fresh_ivf) = 2"
    by (simp_all add: fresh_ivf_def)
  have a: "assign (centroids trained_ivf) (vector item_c) = Inr 1"
    "int (length (vector item_c)) = dimension trained_ivf"
    by (simp_all add: trained_ivf_def item_c_def assign_examples)
  have l: "(ivf_lists filled_ivf)[1 := ivf_lists filled_ivf ! 1 @ [item_c]] =
      [[item_a], [item_b, item_c, item_c]]"
    by (simp add: filled_ivf_def)
  from ivf_centroids_fixed_after_fit [OF pos fresh_fit,
      of "[Add [item_a, item_b, item_c], Search [1, 0] 2 None]" item_c]
  show ?thesis
    unfolding filled_run n using a l fresh_fit by auto
qed

text \<open>
  C8 (amended). A vector whose length differs from the configured dimension is rejected
  and never stored. On a Sampled Flat Index, and on a Clustered Inverted Index that has
  been trained, \<^verbatim>\<open>add\<close> fails with DimensionMismatch at the first such item, having stored
  exactly the items before it; \<^verbatim>\<open>search\<close> with such a query fails with
  DimensionMismatch on either variant, trained or not, and leaves the index as it is. On
  a Clustered Inverted Index without centroids \<^verbatim>\<open>add\<close> fails with NotTrained instead and
  stores nothing.
\<close>

theorem dimension_mismatch_rejected:
  assumes "0 < n_lists s0" and "fit R s0 data = Inr s1"
    and "dimension s1 = d" and "dimension h = d" and "dimension u = d"
    and "\<forall>it \<in> set pre. int (length (vector it)) = d"
    and "int (length (vector bad)) \<noteq> d" and "int (length query) \<noteq> d"
  shows "HNSW_add h (pre @ bad # post) = (Some DimensionMismatch, h\<lparr>items := items h @ pre\<rparr>) \<and>
         HNSW_search R' h query k = (Inl DimensionMismatch, h) \<and>
         IVF_search u query k n_probe = Inl DimensionMismatch \<and>
         (centroids u = [] \<longrightarrow> IVF_add u (pre @ bad # post) = (Some NotTrained, u)) \<and>
         (\<exists>s'. IVF_add (ivf_run s1 calls) pre = (None, s') \<and>
               IVF_add (ivf_run s1 calls) (pre @ bad # post) = (Some DimensionMismatch, s') \<and>
               mset (concat (ivf_lists s')) =
                 mset (concat (ivf_lists (ivf_run s1 calls))) + mset pre)"
proof -
  let ?s = "ivf_run s1 calls"
  note run = ivf_run_trained [OF fit_trained [OF assms(2,1)], of calls]
  have tr: "ivf_trained ?s" and d: "dimension ?s = d"
    using run assms(3) by simp_all
  have pre: "\<forall>it \<in> set pre. int (length (vector it)) = dimension ?s"
    and bad: "int (length (vector bad)) \<noteq> dimension ?s"
    using assms(6,7) d by simp_all
  from IVF_add_loop_valid [OF tr pre] obtain s' where
    s': "IVF_add_loop ?s pre = (None, s')"
      "mset (concat (ivf_lists s')) = mset (concat (ivf_lists ?s)) + mset pre"
    by blast
  have "IVF_add_loop ?s (pre @ bad # post) = (Some DimensionMismatch, s')"
    using IVF_add_loop_offending [OF tr pre bad, of post] s'(1) by simp
  with s' have ivf: "\<exists>s'. IVF_add ?s pre = (None, s') \<and>
      IVF_add ?s (pre @ bad # post) = (Some DimensionMismatch, s') \<and>
      mset (concat (ivf_lists s')) = mset (concat (ivf_lists ?s)) + mset pre"
    by (simp add: IVF_add_trained [OF tr])
  have "HNSW_add h (pre @ bad # post) = (Some DimensionMismatch, h\<lparr>items := items h @ pre\<rparr>)"
    using assms(4,6,7) by (intro HNSW_add_offending) simp_all
  moreover have "HNSW_search R' h query k = (Inl DimensionMismatch, h)"
    using assms(4,8) by (simp add: HNSW_search_def)
  moreover have "IVF_search u query k n_probe = Inl DimensionMismatch"
    using assms(5,8) by (simp add: IVF_search_def)
  moreover have "IVF_add u (pre @ bad # post) = (Some NotTrained, u)" if "centroids u = []"
    using that by (simp add: IVF_add_def)
  ultimately show ?thesis
    using ivf by blast
qed

theorem dimension_mismatch_rejected_witness:
  "HNSW_add (wide_ef_index 1) [item_a, short_item, item_b] =
     (Some DimensionMismatch, (wide_ef_index 1)\<lparr>items := [item_b, item_c, item_a, item_a]\<rparr>) \<and>
   HNSW_search rot_random (wide_ef_index 1) [1] 3 = (Inl DimensionMismatch, wide_ef_index 1) \<and>
   IVF_search fresh_ivf [1] 3 None = Inl DimensionMismatch \<and>
   IVF_add fresh_ivf [item_a, short_item, item_b] = (Some NotTrained, fresh_ivf) \<and>
   IVF_add trained_ivf [item_a, short_item, item_b] =
     (Some DimensionMismatch, trained_ivf\<lparr>ivf_lists := [[item_a], []]\<rparr>)"
proof -
  have h: "0 < n_lists fresh_ivf" "dimension trained_ivf = 2" "dimension (wide_ef_index 1) = 2"
    "dimension fresh_ivf = 2" "\<forall>it \<in> set [item_a]. int (length (vector it)) = 2"
    "int (length (vector short_item)) \<noteq> 2" "int (length [1 :: real]) \<noteq> 2"
    by (simp_all add: fresh_ivf_def trained_ivf_def wide_ef_index_def item_a_def short_item_def)
  have c: "centroids fresh_ivf = []" "ivf_run trained_ivf [] = trained_ivf"
    "items (wide_ef_index 1) @ [item_a] = [item_b, item_c, item_a, item_a]"
    by (simp_all add: fresh_ivf_def ivf_run_def wide_ef_index_def)
  from dimension_mismatch_rejected [OF h(1) fresh_fit h(2,3,4,5,6,7),
      of "[item_b]" rot_random 3 None "[]"]
  show ?thesis
    using c trained_add_one by auto
qed

text \<open>
  C8 as stated does not hold: on the Clustered Inverted Index as constructed, before any
  \<^verbatim>\<open>fit\<close>, \<^verbatim>\<open>add\<close> of an item with a one-component vector (the dimension is 2) fails
  with NotTrained, not with DimensionMismatch.
\<close>

theorem ivf_untrained_add_mismatch_is_not_trained:
  "IVFIndex_init rot_random 2 2 1 (Some 0) = Inr fresh_ivf \<and>
   int (length (vector short_item)) \<noteq> dimension fresh_ivf \<and>
   IVF_add fresh_ivf [short_item] = (Some NotTrained, fresh_ivf) \<and>
   NotTrained \<noteq> DimensionMismatch"
  by (simp add: IVFIndex_init_def fresh_ivf_def rot_random_def short_item_def IVF_add_def)

end
